theory Spec2Isabelle
  imports Main
begin

section \<open>Strings and the regular expressions of \<^verbatim>\<open>ctox/subst.py\<close>\<close>

text \<open>
  A Python \<^verbatim>\<open>str\<close> is modelled as a \<^typ>\<open>string\<close>; one \<^typ>\<open>char\<close> stands for one code
  point below 256. \<^verbatim>\<open>\s\<close> of \<^verbatim>\<open>re\<close> and \<^verbatim>\<open>str.strip()\<close> use the same notion of white
  space, which for these code points is the set below.
\<close>

definition isspace :: "char \<Rightarrow> bool" where
  "isspace c \<longleftrightarrow> c \<in> set [CHR 0x09, CHR 0x0A, CHR 0x0B, CHR 0x0C, CHR 0x0D,
     CHR 0x1C, CHR 0x1D, CHR 0x1E, CHR 0x1F, CHR 0x20, CHR 0x85, CHR 0xA0]"

definition newline :: char where
  "newline = CHR 0x0A"

text \<open>The character class \<^verbatim>\<open>[^{}]\<close>.\<close>

definition nobrace :: "char \<Rightarrow> bool" where
  "nobrace c \<longleftrightarrow> c \<noteq> CHR ''{'' \<and> c \<noteq> CHR ''}''"

text \<open>\<^verbatim>\<open>s[a:b]\<close> for indices that are not negative; out of range indices are clamped.\<close>

definition slice :: "string \<Rightarrow> nat \<Rightarrow> nat \<Rightarrow> string" where
  "slice s a b = take (b - a) (drop a s)"

text \<open>\<^verbatim>\<open>s[1:-1]\<close>.\<close>

definition inner_text :: "string \<Rightarrow> string" where
  "inner_text g = butlast (tl g)"

definition startswith :: "string \<Rightarrow> string \<Rightarrow> bool" where
  "startswith s p \<longleftrightarrow> take (length p) s = p"

definition strip :: "string \<Rightarrow> string" where
  "strip s = rev (dropWhile isspace (rev (dropWhile isspace s)))"

text \<open>\<^verbatim>\<open>s.split(c)\<close> for a separator of one character: empty pieces are kept.\<close>

fun split_char :: "char \<Rightarrow> string \<Rightarrow> string list" where
  "split_char c [] = [[]]"
| "split_char c (x # xs) =
     (if x = c then [] # split_char c xs
      else (case split_char c xs of
              p # ps \<Rightarrow> (x # p) # ps
            | [] \<Rightarrow> [[x]]))"

text \<open>\<^verbatim>\<open>sep.join(xs)\<close>.\<close>

fun join :: "string \<Rightarrow> string list \<Rightarrow> string" where
  "join sep [] = []"
| "join sep [x] = x"
| "join sep (x # y # ys) = x @ sep @ join sep (y # ys)"

text \<open>
  A match object: \<^verbatim>\<open>m.start()\<close>, \<^verbatim>\<open>m.end()\<close> and \<^verbatim>\<open>m.group()\<close>.
\<close>

datatype rmatch = Match (m_start: nat) (m_end: nat) (m_group: string)

text \<open>
  \<^verbatim>\<open>{[^{}]*}\<close> tried at the start of a text: the matched text and what follows it. The
  class cannot take a brace, so the greedy star stops at the first brace, and the match
  succeeds exactly when that brace is a closing one.
\<close>

definition match_curly :: "string \<Rightarrow> (string \<times> string) option" where
  "match_curly s =
     (case s of
        [] \<Rightarrow> None
      | c # cs \<Rightarrow>
          if c = CHR ''{'' then
            (case dropWhile nobrace cs of
               [] \<Rightarrow> None
             | d # rest \<Rightarrow>
                 if d = CHR ''}'' then Some (c # takeWhile nobrace cs @ [d], rest)
                 else None)
          else None)"

text \<open>
  \<^verbatim>\<open>\s*c\s*\<close> tried at the start of a text, for a separator \<open>c\<close> that is not white
  space (a comma or a colon in the source): the greedy \<^verbatim>\<open>\s*\<close> takes the whole run of white
  space, and giving characters back never helps, since the next one would be white space.
\<close>

definition match_sep :: "char \<Rightarrow> string \<Rightarrow> (string \<times> string) option" where
  "match_sep c s =
     (case dropWhile isspace s of
        [] \<Rightarrow> None
      | d # rest \<Rightarrow>
          if d = c then
            Some (takeWhile isspace s @ [d] @ takeWhile isspace rest, dropWhile isspace rest)
          else None)"

lemma match_curly_parts:
  "match_curly s = Some (g, r) \<Longrightarrow> s = g @ r \<and> g \<noteq> []"
  unfolding match_curly_def
  by (auto split: list.splits if_splits)
     (metis takeWhile_dropWhile_id)

lemma match_sep_parts:
  "match_sep c s = Some (g, r) \<Longrightarrow> s = g @ r \<and> g \<noteq> []"
  unfolding match_sep_def
  by (auto split: list.splits if_splits)
     (metis takeWhile_dropWhile_id)

lemma match_curly_shorter:
  "match_curly (c # cs) = Some (g, r) \<Longrightarrow> length r < Suc (length cs)"
  using match_curly_parts [of "c # cs" g r]
  by (metis length_Cons length_append length_greater_0_conv less_add_same_cancel2)

lemma match_sep_shorter:
  "match_sep c (x # xs) = Some (g, r) \<Longrightarrow> length r < Suc (length xs)"
  using match_sep_parts [of c "x # xs" g r]
  by (metis length_Cons length_append length_greater_0_conv less_add_same_cancel2)

text \<open>
  \<^verbatim>\<open>re.finditer(r"{[^{}]*}", s)\<close>: the matches from left to right, none overlapping; the
  first argument is the position of the text in the whole string.
\<close>

function finditer_curly_from :: "nat \<Rightarrow> string \<Rightarrow> rmatch list" where
  "finditer_curly_from pos [] = []"
| "finditer_curly_from pos (c # cs) =
     (case match_curly (c # cs) of
        Some (g, rest) \<Rightarrow>
          Match pos (pos + length g) g # finditer_curly_from (pos + length g) rest
      | None \<Rightarrow> finditer_curly_from (Suc pos) cs)"
  by pat_completeness auto
termination
  by (relation "measure (\<lambda>(pos, s). length s)") (auto dest: match_curly_shorter)

definition finditer_curly :: "string \<Rightarrow> rmatch list" where
  "finditer_curly s = finditer_curly_from 0 s"

text \<open>\<^verbatim>\<open>re.split\<close> on \<^verbatim>\<open>\s*c\s*\<close>.\<close>

function re_split_sep :: "char \<Rightarrow> string \<Rightarrow> string list" where
  "re_split_sep c [] = [[]]"
| "re_split_sep c (x # xs) =
     (case match_sep c (x # xs) of
        Some (g, rest) \<Rightarrow> [] # re_split_sep c rest
      | None \<Rightarrow>
          (case re_split_sep c xs of
             p # ps \<Rightarrow> (x # p) # ps
           | [] \<Rightarrow> [[x]]))"
  by pat_completeness auto
termination
  by (relation "measure (\<lambda>(c, s). length s)") (auto dest: match_sep_shorter)

text \<open>\<^verbatim>\<open>re.finditer(r"{[^{}]*}|\s*,\s*", s)\<close>: the first alternative is tried first.\<close>

function finditer_split_from :: "nat \<Rightarrow> string \<Rightarrow> rmatch list" where
  "finditer_split_from pos [] = []"
| "finditer_split_from pos (c # cs) =
     (case match_curly (c # cs) of
        Some (g, rest) \<Rightarrow>
          Match pos (pos + length g) g # finditer_split_from (pos + length g) rest
      | None \<Rightarrow>
          (case match_sep CHR '','' (c # cs) of
             Some (g, rest) \<Rightarrow>
               Match pos (pos + length g) g # finditer_split_from (pos + length g) rest
           | None \<Rightarrow> finditer_split_from (Suc pos) cs))"
  by pat_completeness auto
termination
  by (relation "measure (\<lambda>(pos, s). length s)")
     (auto dest: match_curly_shorter match_sep_shorter)

section \<open>Brace expansion\<close>

text \<open>\<^verbatim>\<open>_replace_curly\<close>: the outer loop runs over the alternatives, the inner one over the list.\<close>

definition replace_curly :: "string list \<Rightarrow> rmatch \<Rightarrow> string list" where
  "replace_curly envlist m =
     concat (map (\<lambda>alt. map (\<lambda>e. take (m_start m) e @ alt @ drop (m_end m) e) envlist)
                 (re_split_sep CHR '','' (inner_text (m_group m))))"

text \<open>\<^verbatim>\<open>expand_curlys\<close>: \<^verbatim>\<open>reduce(_replace_curly, reversed(curleys), [s])\<close>.\<close>

definition expand_curlys :: "string \<Rightarrow> string list" where
  "expand_curlys s = foldl replace_curly [s] (rev (finditer_curly s))"

text \<open>
  \<^verbatim>\<open>_split_out_of_braces\<close>: the loop over the matches, with the variable \<^verbatim>\<open>prev\<close>, and the
  part after the last separator.
\<close>

fun split_loop :: "string \<Rightarrow> nat \<Rightarrow> rmatch list \<Rightarrow> string list" where
  "split_loop s prev [] = (let part = drop prev s in if part \<noteq> [] then [part] else [])"
| "split_loop s prev (m # ms) =
     (if \<not> startswith (m_group m) ''{'' then
        (let part = slice s prev (m_start m) in
           (if part \<noteq> [] then [part] else []) @ split_loop s (m_end m) ms)
      else split_loop s prev ms)"

definition split_out_of_braces :: "string \<Rightarrow> string list" where
  "split_out_of_braces s = split_loop s 0 (finditer_split_from 0 s)"

definition bash_expand :: "string \<Rightarrow> string list" where
  "bash_expand s = concat (map expand_curlys (split_out_of_braces s))"

definition parse_envlist :: "string \<Rightarrow> string list" where
  "parse_envlist s = bash_expand s"

section \<open>Positional arguments\<close>

fun positional_loop :: "string list \<Rightarrow> string list" where
  "positional_loop [] = []"
| "positional_loop (a # as) = (if startswith a ''-'' then [] else a # positional_loop as)"

definition positional_args :: "string list \<Rightarrow> string list" where
  "positional_args arguments =
     (if arguments \<noteq> [] \<and> hd arguments = ''--'' then tl arguments
      else positional_loop arguments)"

section \<open>The environment descriptor and the process environment\<close>

text \<open>
  The environment descriptor is an object of the caller. The functions of this module read
  its \<^verbatim>\<open>name\<close>, its \<^verbatim>\<open>options\<close> (a list of tokens), \<^verbatim>\<open>config.get(section, option)\<close>
  (\<open>None\<close> when the lookup raises) and, through \<^verbatim>\<open>getattr\<close>, any attribute; \<open>attrs\<close>
  holds the attributes other than the three above (\<open>None\<close> for \<^verbatim>\<open>AttributeError\<close>). An
  attribute value is a string, Python's \<^verbatim>\<open>None\<close>, or some other object.
\<close>

datatype pyval = PStr string | PNone | PObj

record env =
  name :: string
  options :: "string list"
  config :: "string \<Rightarrow> string \<Rightarrow> string option"
  attrs :: "string \<Rightarrow> pyval option"

definition getattr :: "env \<Rightarrow> string \<Rightarrow> pyval option" where
  "getattr env s =
     (if s = ''name'' then Some (PStr (name env))
      else if s = ''options'' then Some PObj
      else if s = ''config'' then Some PObj
      else attrs env s)"

text \<open>\<^verbatim>\<open>os.environ\<close>.\<close>

type_synonym environ = "string \<Rightarrow> string option"

text \<open>The exceptions that leave the functions of this module.\<close>

datatype error =
    TypeError
  | KeyError string
  | IndexError
  | MissingConfigKey string string
  | NotImplementedError string

section \<open>Factor conditions\<close>

definition expand_factor_conditions :: "string \<Rightarrow> env \<Rightarrow> string" where
  "expand_factor_conditions s env =
     (let e = re_split_sep CHR '':'' s in
        if length e = 2 \<and> e ! 0 \<noteq> ''env'' then
          (let env_labels = set (split_char CHR ''-'' (name env));
               labels = set (bash_expand (e ! 0))
           in if labels \<inter> env_labels \<noteq> {} then e ! 1 else [])
        else s)"

section \<open>The substitutions\<close>

text \<open>\<^verbatim>\<open>_replace_envvar\<close>: \<^verbatim>\<open>env:KEY\<close> or \<^verbatim>\<open>env:KEY:DEFAULT\<close>.\<close>

definition replace_envvar :: "environ \<Rightarrow> string \<Rightarrow> env \<Rightarrow> error + string" where
  "replace_envvar environ s env =
     (let e = split_char CHR '':'' s in
        if length e > 3 \<or> length e = 1 \<or> hd e \<noteq> ''env'' then Inl TypeError
        else if length e = 2 then
          (case environ (e ! 1) of
             None \<Rightarrow> Inl (KeyError (e ! 1))
           | Some v \<Rightarrow> Inr v)
        else
          (case environ (e ! 1) of
             None \<Rightarrow> Inr (e ! 2)
           | Some v \<Rightarrow> Inr v))"

text \<open>
  \<^verbatim>\<open>re.match(r"\[(.*?)\](.*)", s)\<close>: the two groups. A dot takes any character but a
  newline; the lazy star stops at the first closing bracket, which no newline may precede,
  and the greedy one runs to the end of the line.
\<close>

definition re_match_config :: "string \<Rightarrow> (string \<times> string) option" where
  "re_match_config s =
     (case s of
        [] \<Rightarrow> None
      | c # cs \<Rightarrow>
          if c = CHR ''['' then
            (case dropWhile (\<lambda>x. x \<noteq> CHR '']'' \<and> x \<noteq> newline) cs of
               [] \<Rightarrow> None
             | d # rest \<Rightarrow>
                 if d = CHR '']'' then
                   Some (takeWhile (\<lambda>x. x \<noteq> CHR '']'' \<and> x \<noteq> newline) cs,
                         takeWhile (\<lambda>x. x \<noteq> newline) rest)
                 else None)
          else None)"

text \<open>\<^verbatim>\<open>_replace_config\<close>: \<^verbatim>\<open>[sectionname]optionname\<close>.\<close>

definition replace_config :: "environ \<Rightarrow> string \<Rightarrow> env \<Rightarrow> error + string" where
  "replace_config environ s env =
     (case re_match_config s of
        Some (section, option) \<Rightarrow>
          (case config env section option of
             None \<Rightarrow> Inl (MissingConfigKey section option)
           | Some expanded \<Rightarrow>
               Inr (join [newline]
                     (map (\<lambda>e. expand_factor_conditions e env) (split_char newline expanded))))
      | None \<Rightarrow> Inl TypeError)"

text \<open>
  \<^verbatim>\<open>_replace_posargs\<close>: \<^verbatim>\<open>" ".join(...) or e[1]\<close> reads \<^verbatim>\<open>e[1]\<close> only when the joined
  text is empty, and \<^verbatim>\<open>e[1]\<close> raises \<^verbatim>\<open>IndexError\<close> when the split gave one part.
\<close>

definition replace_posargs :: "environ \<Rightarrow> string \<Rightarrow> env \<Rightarrow> error + string" where
  "replace_posargs environ s env =
     (let e = re_split_sep CHR '':'' s in
        if hd e = ''posargs'' then
          (let joined = join '' '' (positional_args (options env)) in
             if joined \<noteq> [] then Inr joined
             else (case tl e of
                     [] \<Rightarrow> Inl IndexError
                   | d # _ \<Rightarrow> Inr d))
        else Inl TypeError)"

text \<open>
  The loop of \<^verbatim>\<open>_replace_match\<close> over the three functions: a \<^verbatim>\<open>TypeError\<close> goes on to the
  next one, any other exception leaves the loop, and after the last one
  \<^verbatim>\<open>NotImplementedError\<close> is raised with its message.
\<close>

type_synonym strategy = "environ \<Rightarrow> string \<Rightarrow> env \<Rightarrow> error + string"

fun try_strategies :: "strategy list \<Rightarrow> environ \<Rightarrow> string \<Rightarrow> env \<Rightarrow> error + string" where
  "try_strategies [] environ s env =
     Inl (NotImplementedError (''{'' @ s @ ''} not understood in tox.ini file.''))"
| "try_strategies (r # rs) environ s env =
     (case r environ s env of
        Inl TypeError \<Rightarrow> try_strategies rs environ s env
      | Inl e \<Rightarrow> Inl e
      | Inr v \<Rightarrow> Inr v)"

definition replace_match :: "environ \<Rightarrow> rmatch \<Rightarrow> env \<Rightarrow> error + pyval" where
  "replace_match environ m env =
     (let s = strip (inner_text (m_group m)) in
        case getattr env s of
          Some v \<Rightarrow> Inr v
        | None \<Rightarrow>
            (case try_strategies [replace_envvar, replace_config, replace_posargs] environ s env of
               Inl e \<Rightarrow> Inl e
             | Inr v \<Rightarrow> Inr (PStr v)))"

text \<open>
  \<^verbatim>\<open>re.sub(r"{[^{}]*}", replace, s)\<close>. The loop of \<^verbatim>\<open>re.sub\<close> goes over the matches from
  left to right; for each it appends the text since the last match to a list, calls the
  function and appends the result unless it is \<^verbatim>\<open>None\<close>; an exception of the function
  ends the call at once. After the last match the rest of the text is appended and the
  list is joined: only then does an item that is not a string raise \<^verbatim>\<open>TypeError\<close>.
  (The library appends a piece of text only when it is not empty, which gives the same
  join.)
\<close>

fun sub_loop ::
  "(rmatch \<Rightarrow> error + pyval) \<Rightarrow> string \<Rightarrow> nat \<Rightarrow> rmatch list \<Rightarrow> error + pyval list" where
  "sub_loop repl s prev [] = Inr [PStr (drop prev s)]"
| "sub_loop repl s prev (m # ms) =
     (case repl m of
        Inl e \<Rightarrow> Inl e
      | Inr item \<Rightarrow>
          (case sub_loop repl s (m_end m) ms of
             Inl e \<Rightarrow> Inl e
           | Inr items \<Rightarrow>
               Inr (PStr (slice s prev (m_start m)) #
                    (if item = PNone then [] else [item]) @ items)))"

text \<open>The join of the list: \<^verbatim>\<open>"".join(list)\<close>.\<close>

fun join_items :: "pyval list \<Rightarrow> error + string" where
  "join_items [] = Inr []"
| "join_items (PStr x # items) =
     (case join_items items of
        Inl e \<Rightarrow> Inl e
      | Inr t \<Rightarrow> Inr (x @ t))"
| "join_items (v # items) = Inl TypeError"

definition re_sub_curly :: "(rmatch \<Rightarrow> error + pyval) \<Rightarrow> string \<Rightarrow> error + string" where
  "re_sub_curly repl s =
     (case sub_loop repl s 0 (finditer_curly s) of
        Inl e \<Rightarrow> Inl e
      | Inr items \<Rightarrow> join_items items)"

definition DEPTH :: nat where
  "DEPTH = 5"

text \<open>\<^verbatim>\<open>replace_braces\<close>: the loop \<^verbatim>\<open>for _ in range(DEPTH)\<close>.\<close>

fun replace_loop :: "nat \<Rightarrow> environ \<Rightarrow> string \<Rightarrow> env \<Rightarrow> error + string" where
  "replace_loop 0 environ s env = Inr s"
| "replace_loop (Suc n) environ s env =
     (case re_sub_curly (\<lambda>m. replace_match environ m env) s of
        Inl e \<Rightarrow> Inl e
      | Inr s' \<Rightarrow> replace_loop n environ s' env)"

definition replace_braces :: "environ \<Rightarrow> string \<Rightarrow> env \<Rightarrow> error + string" where
  "replace_braces environ s env = replace_loop DEPTH environ s env"

section \<open>An example environment\<close>

definition example_deps :: string where
  "example_deps = ''py{33,34}: docformatter'' @ [newline] @ ''py26: six'' @ [newline] @ ''pytest''"

definition example_env :: env where
  "example_env =
     \<lparr>name = ''py34-foo'',
      options = [],
      config = (\<lambda>section option.
        if section = ''testenv'' \<and> option = ''deps'' then Some example_deps else None),
      attrs = (\<lambda>_. None)\<rparr>"


section \<open>The cartesian product, after the words of the specification\<close>

text \<open>
  The specification describes the expansion of a segment as the cartesian product of the
  alternatives of its groups, the alternatives of the first group varying slowest and
  those of the rightmost group fastest, each candidate being the text between the groups
  with one alternative in the place of every group. \<open>cartesian s prev ms\<close> is that list
  for the part of \<open>s\<close> from \<open>prev\<close> on with the groups \<open>ms\<close>; \<open>spans_ok\<close> says that
  matches lie one after the other between two positions.
\<close>

fun cartesian :: "string \<Rightarrow> nat \<Rightarrow> rmatch list \<Rightarrow> string list" where
  "cartesian s prev [] = [drop prev s]"
| "cartesian s prev (m # ms) =
     concat (map (\<lambda>alt. map (\<lambda>rest. slice s prev (m_start m) @ alt @ rest)
                              (cartesian s (m_end m) ms))
                 (re_split_sep CHR '','' (inner_text (m_group m))))"

fun spans_ok :: "nat \<Rightarrow> rmatch list \<Rightarrow> nat \<Rightarrow> bool" where
  "spans_ok p [] n = (p \<le> n)"
| "spans_ok p (m # ms) n = (p \<le> m_start m \<and> m_start m \<le> m_end m \<and> spans_ok (m_end m) ms n)"


section \<open>Nested placeholders\<close>

text \<open>
  A family of inputs: \<open>nested [p1, ..., pn] d\<close> is the text
  \<^verbatim>\<open>{posargs:p1{posargs:p2 ... {posargs:pn d} ... }}\<close>, \<open>n\<close> groups deep, the group of
  \<open>p1\<close> outermost and that of \<open>pn\<close> innermost. A plain word has no brace, no colon
  and no white space.
\<close>

definition openers :: "string list \<Rightarrow> string" where
  "openers ps = concat (map (\<lambda>p. ''{posargs:'' @ p) ps)"

definition nested :: "string list \<Rightarrow> string \<Rightarrow> string" where
  "nested ps d = openers ps @ d @ replicate (length ps) CHR ''}''"

definition plain :: "string \<Rightarrow> bool" where
  "plain w = list_all (\<lambda>c. nobrace c \<and> c \<noteq> CHR '':'' \<and> \<not> isspace c) w"


section \<open>Levels of expansion\<close>

text \<open>
  The specification speaks of a string that requires exactly \<open>n\<close> levels of expansion:
  \<open>n\<close> passes, each without error, bring it to a text without brace groups, and no
  smaller number of passes does. \<open>env_ref k\<close> is the placeholder \<^verbatim>\<open>{env:k}\<close>, and
  \<open>chained environ [k1, ..., kn]\<close> says that the value of each key but the last is the
  placeholder of the next one: nesting through substituted values.
\<close>

definition env_ref :: "string \<Rightarrow> string" where
  "env_ref k = ''{env:'' @ k @ ''}''"

fun chained :: "environ \<Rightarrow> string list \<Rightarrow> bool" where
  "chained environ (k # k' # ks) = (environ k = Some (env_ref k') \<and> chained environ (k' # ks))"
| "chained environ ks = True"

definition requires_levels :: "environ \<Rightarrow> string \<Rightarrow> env \<Rightarrow> nat \<Rightarrow> bool" where
  "requires_levels environ s env n \<longleftrightarrow>
     (case replace_loop n environ s env of
        Inl e \<Rightarrow> False
      | Inr t \<Rightarrow> finditer_curly t = []) \<and>
     list_all (\<lambda>k. case replace_loop k environ s env of
                     Inl e \<Rightarrow> False
                   | Inr t \<Rightarrow> finditer_curly t \<noteq> []) [0..<n]"

definition example_environ :: environ where
  "example_environ = map_of
     [(''K1'', ''{env:K2}''), (''K2'', ''{env:K3}''), (''K3'', ''{env:K4}''),
      (''K4'', ''{env:K5}''), (''K5'', ''{env:K6}''), (''K6'', ''done'')]"


section \<open>Facts about the splitters\<close>

lemma split_char_not_Nil: "split_char c s \<noteq> []"
  by (induction s) (auto split: list.splits)

lemma re_split_sep_not_Nil: "re_split_sep c s \<noteq> []"
  by (induction c s rule: re_split_sep.induct) (auto split: option.splits list.splits)

lemma split_char_no_sep: "c \<notin> set s \<Longrightarrow> split_char c s = [s]"
  by (induction s) auto

lemma split_char_append: "c \<notin> set a \<Longrightarrow> split_char c (a @ c # b) = a # split_char c b"
  by (induction a) auto

lemma match_sep_None: "c \<notin> set s \<Longrightarrow> match_sep c s = None"
proof -
  assume h: "c \<notin> set s"
  have "set (dropWhile isspace s) \<subseteq> set s"
    by (metis set_dropWhileD subsetI)
  with h show ?thesis
    by (auto simp: match_sep_def split: list.splits)
qed

lemma re_split_sep_no_sep: "c \<notin> set s \<Longrightarrow> re_split_sep c s = [s]"
  by (induction s) (auto simp: match_sep_None)

lemma re_split_sep_chars: "p \<in> set (re_split_sep c s) \<Longrightarrow> set p \<subseteq> set s"
proof (induction c s arbitrary: p rule: re_split_sep.induct)
  case (1 c)
  then show ?case by simp
next
  case (2 c x xs)
  show ?case
  proof (cases "match_sep c (x # xs)")
    case None
    then obtain q qs where q: "re_split_sep c xs = q # qs"
      using re_split_sep_not_Nil [of c xs] by (cases "re_split_sep c xs") auto
    with None "2.prems" have "p = x # q \<or> p \<in> set qs" by simp
    moreover have "set q \<subseteq> set xs" using "2.IH"(1) [OF None, of q] q by simp
    moreover have "p \<in> set qs \<Longrightarrow> set p \<subseteq> set xs" using "2.IH"(1) [OF None, of p] q by simp
    ultimately show ?thesis by auto
  next
    case (Some a)
    obtain g rest where a: "a = (g, rest)" by (cases a)
    have "x # xs = g @ rest" using match_sep_parts Some a by blast
    then have sub: "set rest \<subseteq> set (x # xs)" by (metis set_append Un_upper2)
    from "2.prems" Some a have "p = [] \<or> p \<in> set (re_split_sep c rest)" by simp
    then show ?thesis
    proof
      assume "p = []" then show ?thesis by simp
    next
      assume "p \<in> set (re_split_sep c rest)"
      then have "set p \<subseteq> set rest" using "2.IH"(2) [OF Some a [symmetric]] by simp
      with sub show ?thesis by blast
    qed
  qed
qed

lemma split_char_pieces: "p \<in> set (split_char c s) \<Longrightarrow> c \<notin> set p"
  by (induction s arbitrary: p) (auto split: if_splits list.splits)

lemma split_char_join:
  "xs \<noteq> [] \<Longrightarrow> \<forall>p \<in> set xs. c \<notin> set p \<Longrightarrow> split_char c (join [c] xs) = xs"
proof (induction xs)
  case Nil
  then show ?case by simp
next
  case (Cons x xs)
  show ?case
  proof (cases xs)
    case Nil
    with Cons.prems show ?thesis by (simp add: split_char_no_sep)
  next
    case (Cons y ys)
    with Cons.IH Cons.prems have "split_char c (join [c] (y # ys)) = y # ys" by simp
    moreover have "c \<notin> set x" using Cons.prems by simp
    ultimately show ?thesis using Cons by (simp add: split_char_append)
  qed
qed

lemma expand_factor_conditions_chars:
  "set (expand_factor_conditions e env) \<subseteq> set e"
proof -
  let ?e = "re_split_sep CHR '':'' e"
  have "length ?e = 2 \<Longrightarrow> set (?e ! 1) \<subseteq> set e"
    by (rule re_split_sep_chars [of _ "CHR '':''"]) (simp add: nth_mem)
  then show ?thesis
    by (auto simp: expand_factor_conditions_def Let_def)
qed


lemma re_split_posargs:
  "CHR '':'' \<notin> set dflt \<Longrightarrow> dflt = [] \<or> \<not> isspace (hd dflt) \<Longrightarrow>
   re_split_sep CHR '':'' (''posargs:'' @ dflt) = [''posargs'', dflt]"
proof -
  assume a: "CHR '':'' \<notin> set dflt" and b: "dflt = [] \<or> \<not> isspace (hd dflt)"
  have d: "dropWhile isspace dflt = dflt"
    using b by (cases dflt) auto
  show ?thesis
    using a by (simp add: match_sep_def isspace_def d re_split_sep_no_sep)
qed

lemma split_colon_env2:
  "CHR '':'' \<notin> set key \<Longrightarrow> split_char CHR '':'' (''env:'' @ key) = [''env'', key]"
  by (simp add: split_char_no_sep)

lemma split_colon_env3:
  "CHR '':'' \<notin> set key \<Longrightarrow> CHR '':'' \<notin> set dflt \<Longrightarrow>
   split_char CHR '':'' (''env:'' @ key @ '':'' @ dflt) = [''env'', key, dflt]"
  by (simp add: split_char_no_sep split_char_append)


section \<open>Facts about one pass and about the loop of passes\<close>

lemma finditer_curly_from_no_open:
  "CHR ''{'' \<notin> set post \<Longrightarrow> finditer_curly_from p post = []"
  by (induction post arbitrary: p) (auto simp: match_curly_def)

lemma dropWhile_nobrace_open:
  "CHR ''}'' \<notin> set pre \<Longrightarrow> \<exists>u. dropWhile nobrace (pre @ CHR ''{'' # r) = CHR ''{'' # u"
  by (induction pre) (auto simp: nobrace_def)

lemma match_curly_outer:
  "CHR ''}'' \<notin> set pre \<Longrightarrow> match_curly (x # pre @ CHR ''{'' # r) = None"
  using dropWhile_nobrace_open [of pre r]
  by (auto simp: match_curly_def)

lemma match_curly_group:
  "list_all nobrace inner \<Longrightarrow>
   match_curly (CHR ''{'' # inner @ CHR ''}'' # post) = Some (CHR ''{'' # inner @ ''}'', post)"
proof -
  assume a: "list_all nobrace inner"
  then have all: "\<And>x. x \<in> set inner \<Longrightarrow> nobrace x" by (simp add: list_all_iff)
  have t: "takeWhile nobrace (inner @ CHR ''}'' # post) = inner"
    using takeWhile_append2 [of inner nobrace "CHR ''}'' # post"] all by (simp add: nobrace_def)
  have d: "dropWhile nobrace (inner @ CHR ''}'' # post) = CHR ''}'' # post"
    using dropWhile_append2 [of inner nobrace "CHR ''}'' # post"] all by (simp add: nobrace_def)
  show ?thesis by (simp add: match_curly_def t d)
qed

lemma finditer_curly_innermost:
  "CHR ''}'' \<notin> set pre \<Longrightarrow> list_all nobrace inner \<Longrightarrow> CHR ''{'' \<notin> set post \<Longrightarrow>
   finditer_curly_from p (pre @ CHR ''{'' # inner @ CHR ''}'' # post) =
     [Match (p + length pre) (p + length pre + length inner + 2) (CHR ''{'' # inner @ ''}'')]"
proof (induction pre arbitrary: p)
  case Nil
  then show ?case
    by (simp add: match_curly_group finditer_curly_from_no_open)
next
  case (Cons x pre)
  then have "match_curly (x # pre @ CHR ''{'' # inner @ CHR ''}'' # post) = None"
    using match_curly_outer [of pre x] by simp
  then show ?case
    using Cons by simp
qed

lemma re_sub_curly_innermost:
  assumes "CHR ''}'' \<notin> set pre" "list_all nobrace inner" "CHR ''{'' \<notin> set post"
    and "repl (Match (length pre) (length pre + length inner + 2) (CHR ''{'' # inner @ ''}'')) = Inr (PStr r)"
  shows "re_sub_curly repl (pre @ CHR ''{'' # inner @ CHR ''}'' # post) = Inr (pre @ r @ post)"
  using finditer_curly_innermost [OF assms(1-3), of 0] assms(4)
  by (simp add: re_sub_curly_def finditer_curly_def slice_def)

lemma strip_id:
  assumes "s \<noteq> []" "\<not> isspace (hd s)" "\<not> isspace (last s)"
  shows "strip s = s"
proof -
  have 1: "dropWhile isspace s = s"
    using assms(1,2) by (cases s) auto
  obtain x xs where r: "rev s = x # xs"
    using assms(1) by (cases "rev s") auto
  then have "x = last s"
    using assms(1) by (metis hd_rev list.sel(1))
  then have "dropWhile isspace (x # xs) = x # xs"
    using assms(3) by simp
  then have 2: "dropWhile isspace (rev s) = rev s"
    unfolding r .
  show ?thesis by (simp add: strip_def 1 2)
qed

lemma plain_append: "plain (a @ b) \<longleftrightarrow> plain a \<and> plain b"
  by (simp add: plain_def)

lemma plain_facts:
  assumes "plain w"
  shows "CHR '':'' \<notin> set w" and "list_all nobrace w" and "w = [] \<or> \<not> isspace (hd w)"
    and "w = [] \<or> \<not> isspace (last w)" and "CHR ''{'' \<notin> set w" and "CHR ''}'' \<notin> set w"
proof -
  have all: "\<And>c. c \<in> set w \<Longrightarrow> nobrace c \<and> c \<noteq> CHR '':'' \<and> \<not> isspace c"
    using assms by (simp add: plain_def list_all_iff)
  show "CHR '':'' \<notin> set w" using all by blast
  show "list_all nobrace w" using all by (simp add: list_all_iff)
  show "w = [] \<or> \<not> isspace (hd w)" using all hd_in_set by blast
  show "w = [] \<or> \<not> isspace (last w)" using all last_in_set by blast
  show "CHR ''{'' \<notin> set w" using all nobrace_def by blast
  show "CHR ''}'' \<notin> set w" using all nobrace_def by blast
qed


lemma sub_loop_first_error:
  "\<forall>m' \<in> set ok. \<exists>v. repl m' = Inr v \<Longrightarrow> repl m = Inl e \<Longrightarrow>
   sub_loop repl s prev (ok @ m # rest) = Inl e"
proof (induction ok arbitrary: prev)
  case Nil
  then show ?case by simp
next
  case (Cons a ok)
  then obtain v where v: "repl a = Inr v" by auto
  have "sub_loop repl s (m_end a) (ok @ m # rest) = Inl e"
    using Cons by simp
  then show ?case by (simp add: v)
qed

lemma sub_loop_error_cases:
  "sub_loop repl s prev ms = Inl e \<Longrightarrow>
   \<exists>ok m rest. ms = ok @ m # rest \<and> (\<forall>m' \<in> set ok. \<exists>v. repl m' = Inr v) \<and> repl m = Inl e"
proof (induction ms arbitrary: prev)
  case Nil
  then show ?case by simp
next
  case (Cons a ms)
  show ?case
  proof (cases "repl a")
    case (Inl e')
    with Cons.prems have "e' = e" by simp
    then have "a # ms = [] @ a # ms \<and> (\<forall>m' \<in> set []. \<exists>v. repl m' = Inr v) \<and> repl a = Inl e"
      using Inl by simp
    then show ?thesis by blast
  next
    case (Inr v)
    with Cons.prems have "sub_loop repl s (m_end a) ms = Inl e"
      by (simp split: sum.splits)
    then obtain ok m rest where r: "ms = ok @ m # rest"
        "\<forall>m' \<in> set ok. \<exists>v. repl m' = Inr v" "repl m = Inl e"
      using Cons.IH by blast
    have "a # ms = (a # ok) @ m # rest \<and> (\<forall>m' \<in> set (a # ok). \<exists>v. repl m' = Inr v) \<and>
        repl m = Inl e"
      using r Inr by simp
    then show ?thesis by blast
  qed
qed

lemma sub_loop_items:
  "sub_loop repl s prev ms = Inr items \<Longrightarrow> m \<in> set ms \<Longrightarrow>
   \<exists>v. repl m = Inr v \<and> (v = PNone \<or> v \<in> set items)"
proof (induction ms arbitrary: prev items)
  case Nil
  then show ?case by simp
next
  case (Cons a ms)
  from Cons.prems(1) obtain v rest where v: "repl a = Inr v"
    and rest: "sub_loop repl s (m_end a) ms = Inr rest"
    and items: "items = PStr (slice s prev (m_start a)) # (if v = PNone then [] else [v]) @ rest"
    by (auto split: sum.splits)
  show ?case
  proof (cases "m = a")
    case True
    then show ?thesis using v items by auto
  next
    case False
    then have "m \<in> set ms" using Cons.prems(2) by simp
    then obtain w where "repl m = Inr w" "w = PNone \<or> w \<in> set rest"
      using Cons.IH [OF rest] by blast
    then show ?thesis using items by auto
  qed
qed

lemma sub_loop_all_ok:
  "\<forall>m \<in> set ms. \<exists>v. repl m = Inr v \<Longrightarrow> \<exists>items. sub_loop repl s prev ms = Inr items"
proof (induction ms arbitrary: prev)
  case Nil
  then show ?case by simp
next
  case (Cons a ms)
  then obtain v where v: "repl a = Inr v" by auto
  obtain rest where "sub_loop repl s (m_end a) ms = Inr rest"
    using Cons by fastforce
  then show ?case by (simp add: v)
qed

lemma join_items_error: "join_items items = Inl e \<Longrightarrow> e = TypeError"
  by (induction items rule: join_items.induct) (auto split: sum.splits)

lemma join_items_strings: "join_items items = Inr t \<Longrightarrow> PObj \<notin> set items \<and> PNone \<notin> set items"
  by (induction items arbitrary: t rule: join_items.induct) (auto split: sum.splits)

lemma join_items_PObj: "PObj \<in> set items \<Longrightarrow> join_items items = Inl TypeError"
  by (induction items rule: join_items.induct) (auto split: sum.splits)

lemma replace_loop_add:
  "replace_loop k environ s env = Inr t \<Longrightarrow>
   replace_loop (k + j) environ s env = replace_loop j environ t env"
  by (induction k arbitrary: s) (auto split: sum.splits)

lemma replace_loop_error_add:
  "replace_loop k environ s env = Inl e \<Longrightarrow> replace_loop (k + j) environ s env = Inl e"
  by (induction k arbitrary: s) (auto split: sum.splits)

lemma replace_loop_error_pass:
  "replace_loop n environ s env = Inl e \<Longrightarrow>
   \<exists>k t. k < n \<and> replace_loop k environ s env = Inr t \<and>
     re_sub_curly (\<lambda>m. replace_match environ m env) t = Inl e"
proof (induction n arbitrary: s)
  case 0
  then show ?case by simp
next
  case (Suc n)
  show ?case
  proof (cases "re_sub_curly (\<lambda>m. replace_match environ m env) s")
    case (Inl e')
    with Suc.prems have "e' = e" by simp
    then have "0 < Suc n \<and> replace_loop 0 environ s env = Inr s \<and>
        re_sub_curly (\<lambda>m. replace_match environ m env) s = Inl e"
      using Inl by simp
    then show ?thesis by blast
  next
    case (Inr s')
    with Suc.prems have "replace_loop n environ s' env = Inl e" by simp
    then obtain k t where k: "k < n" "replace_loop k environ s' env = Inr t"
        "re_sub_curly (\<lambda>m. replace_match environ m env) t = Inl e"
      using Suc.IH by blast
    have "Suc k < Suc n \<and> replace_loop (Suc k) environ s env = Inr t \<and>
        re_sub_curly (\<lambda>m. replace_match environ m env) t = Inl e"
      using k Inr by simp
    then show ?thesis by blast
  qed
qed

lemma replace_loop_pass_error:
  assumes "k < n" "replace_loop k environ s env = Inr t"
    and "re_sub_curly (\<lambda>m. replace_match environ m env) t = Inl e"
  shows "replace_loop n environ s env = Inl e"
proof -
  define j where "j = n - Suc k"
  have n: "n = k + Suc j"
    using assms(1) by (simp add: j_def)
  have "replace_loop (k + Suc j) environ s env = replace_loop (Suc j) environ t env"
    using assms(2) by (rule replace_loop_add)
  then show ?thesis
    using assms(3) n by simp
qed

lemma replace_loop_prefix:
  assumes "replace_loop n environ s env = Inr r" "k \<le> n"
  shows "\<exists>t. replace_loop k environ s env = Inr t"
proof (cases "replace_loop k environ s env")
  case (Inl e)
  obtain j where "n = k + j" using assms(2) le_Suc_ex by blast
  then have "replace_loop n environ s env = Inl e"
    using replace_loop_error_add [OF Inl] by simp
  with assms(1) show ?thesis by simp
next
  case (Inr t)
  then show ?thesis by blast
qed

lemma sub_loop_items_origin:
  "sub_loop repl s prev ms = Inr items \<Longrightarrow> v \<in> set items \<Longrightarrow>
   (\<exists>x. v = PStr x) \<or> (\<exists>m \<in> set ms. repl m = Inr v)"
proof (induction ms arbitrary: prev items)
  case Nil
  then show ?case by auto
next
  case (Cons a ms)
  from Cons.prems(1) obtain w rest where w: "repl a = Inr w"
    and rest: "sub_loop repl s (m_end a) ms = Inr rest"
    and items: "items = PStr (slice s prev (m_start a)) # (if w = PNone then [] else [w]) @ rest"
    by (auto split: sum.splits)
  from Cons.prems(2) items have "v = PStr (slice s prev (m_start a)) \<or> v = w \<or> v \<in> set rest"
    by (auto split: if_splits)
  then show ?case
  proof (elim disjE)
    assume "v = PStr (slice s prev (m_start a))"
    then show ?thesis by blast
  next
    assume "v = w"
    then show ?thesis using w by auto
  next
    assume "v \<in> set rest"
    then have "(\<exists>x. v = PStr x) \<or> (\<exists>m \<in> set ms. repl m = Inr v)"
      using Cons.IH [OF rest] by blast
    then show ?thesis by auto
  qed
qed

lemma join_items_fail:
  "join_items items = Inl e \<Longrightarrow> PObj \<in> set items \<or> PNone \<in> set items"
  by (induction items rule: join_items.induct) (auto split: sum.splits)

lemma sub_loop_no_None:
  "sub_loop repl s prev ms = Inr items \<Longrightarrow> PNone \<notin> set items"
proof (induction ms arbitrary: prev items)
  case Nil
  then show ?case by auto
next
  case (Cons a ms)
  from Cons.prems(1) obtain w rest where rest: "sub_loop repl s (m_end a) ms = Inr rest"
    and items: "items = PStr (slice s prev (m_start a)) # (if w = PNone then [] else [w]) @ rest"
    by (auto split: sum.splits)
  have "PNone \<notin> set rest" using Cons.IH [OF rest] .
  then show ?case using items by auto
qed

lemma re_sub_curly_first_error:
  assumes "finditer_curly t = ok @ m # rest"
    and "\<forall>m' \<in> set ok. \<exists>v. repl m' = Inr v"
    and "repl m = Inl e"
  shows "re_sub_curly repl t = Inl e"
  using sub_loop_first_error [OF assms(2,3), of t 0 rest] assms(1)
  by (simp add: re_sub_curly_def)

lemma re_sub_curly_error_cases:
  assumes "re_sub_curly repl t = Inl e"
  shows "(\<exists>ok m rest. finditer_curly t = ok @ m # rest \<and>
            (\<forall>m' \<in> set ok. \<exists>v. repl m' = Inr v) \<and> repl m = Inl e) \<or>
         ((\<forall>m \<in> set (finditer_curly t). \<exists>v. repl m = Inr v) \<and>
          (\<exists>m \<in> set (finditer_curly t). repl m = Inr PObj) \<and> e = TypeError)"
proof (cases "sub_loop repl t 0 (finditer_curly t)")
  case (Inl e')
  with assms have "e' = e" by (simp add: re_sub_curly_def)
  then show ?thesis
    using sub_loop_error_cases [of repl t 0 "finditer_curly t" e] Inl by blast
next
  case (Inr items)
  with assms have j: "join_items items = Inl e" by (simp add: re_sub_curly_def)
  have all: "\<forall>m \<in> set (finditer_curly t). \<exists>v. repl m = Inr v"
    using sub_loop_items [OF Inr] by blast
  have "PObj \<in> set items"
    using join_items_fail [OF j] sub_loop_no_None [OF Inr] by blast
  then have "\<exists>m \<in> set (finditer_curly t). repl m = Inr PObj"
    using sub_loop_items_origin [OF Inr, of PObj] by blast
  moreover have "e = TypeError" using j by (rule join_items_error)
  ultimately show ?thesis using all by blast
qed

lemma re_sub_curly_ok:
  assumes "re_sub_curly repl t = Inr t'"
  shows "\<forall>m \<in> set (finditer_curly t). \<exists>v. repl m = Inr v \<and> v \<noteq> PObj"
proof
  fix m assume m: "m \<in> set (finditer_curly t)"
  from assms obtain items where i: "sub_loop repl t 0 (finditer_curly t) = Inr items"
    and j: "join_items items = Inr t'"
    by (auto simp: re_sub_curly_def split: sum.splits)
  obtain v where v: "repl m = Inr v" "v = PNone \<or> v \<in> set items"
    using sub_loop_items [OF i m] by blast
  have "PObj \<notin> set items" using join_items_strings [OF j] by simp
  then have "v \<noteq> PObj" using v(2) by auto
  then show "\<exists>v. repl m = Inr v \<and> v \<noteq> PObj" using v(1) by blast
qed

lemma replace_match_unresolvable:
  assumes "u = strip (inner_text (m_group m))"
    and "getattr env u = None"
    and "length (split_char CHR '':'' u) = 1 \<or> 3 < length (split_char CHR '':'' u) \<or>
         hd (split_char CHR '':'' u) \<noteq> ''env''"
    and "re_match_config u = None"
    and "hd (re_split_sep CHR '':'' u) \<noteq> ''posargs''"
  shows "replace_match environ m env =
         Inl (NotImplementedError (''{'' @ u @ ''} not understood in tox.ini file.''))"
proof -
  have a: "replace_envvar environ u env = Inl TypeError"
    using assms(3) by (auto simp: replace_envvar_def)
  have b: "replace_config environ u env = Inl TypeError"
    using assms(4) by (simp add: replace_config_def)
  have c: "replace_posargs environ u env = Inl TypeError"
    using assms(5) by (simp add: replace_posargs_def)
  show ?thesis
    using assms(2) a b c unfolding assms(1) by (simp add: replace_match_def Let_def)
qed

lemma replace_match_envvar_result:
  assumes "u = strip (inner_text (m_group m))" "getattr env u = None"
    and "replace_envvar environ u env \<noteq> Inl TypeError"
  shows "replace_match environ m env = map_sum id PStr (replace_envvar environ u env)"
  using assms(2,3) unfolding assms(1)
  by (auto simp: replace_match_def Let_def split: sum.splits error.splits)

lemma replace_match_fallthrough:
  assumes "u = strip (inner_text (m_group m))" "getattr env u = None"
    and "replace_envvar environ u env = Inl TypeError"
  shows "replace_match environ m env =
     (if replace_config environ u env \<noteq> Inl TypeError
      then map_sum id PStr (replace_config environ u env)
      else if replace_posargs environ u env \<noteq> Inl TypeError
      then map_sum id PStr (replace_posargs environ u env)
      else Inl (NotImplementedError (''{'' @ u @ ''} not understood in tox.ini file.'')))"
  using assms(2,3) unfolding assms(1)
  by (auto simp: replace_match_def Let_def split: sum.splits error.splits)

lemma single_group_call:
  assumes "list_all nobrace inner" "replace_match environ (Match 0 (length inner + 2)
      (CHR ''{'' # inner @ ''}'')) env = Inl e"
  shows "replace_braces environ (CHR ''{'' # inner @ ''}'') env = Inl e"
proof -
  have f: "finditer_curly (CHR ''{'' # inner @ ''}'') =
      [] @ Match 0 (length inner + 2) (CHR ''{'' # inner @ ''}'') # []"
    using finditer_curly_innermost [of "[]" inner "[]" 0] assms(1)
    by (simp add: finditer_curly_def)
  have "re_sub_curly (\<lambda>m. replace_match environ m env) (CHR ''{'' # inner @ ''}'') = Inl e"
    using re_sub_curly_first_error [OF f, of "\<lambda>m. replace_match environ m env" e] assms(2)
    by simp
  then show ?thesis
    using replace_loop_pass_error [of 0 5 environ "CHR ''{'' # inner @ ''}''" env _ e]
    by (simp add: replace_braces_def DEPTH_def)
qed


section \<open>Positional arguments: the extracted prefix\<close>

lemma positional_loop_takeWhile:
  "positional_loop as = takeWhile (\<lambda>a. \<not> startswith a ''-'') as"
  by (induction as) simp_all

text \<open>
  Claim C7. When the first token is exactly \<^verbatim>\<open>--\<close>, \<open>positional_args\<close> returns the tokens
  after it, unchanged and in order, flags included. Otherwise it returns the longest prefix
  of the tokens in which none starts with \<^verbatim>\<open>-\<close>: no token of the result starts with
  \<^verbatim>\<open>-\<close>, and what is left of the input is empty or begins with a token that starts with
  \<^verbatim>\<open>-\<close>. The two examples of the specification evaluate as stated.
\<close>

theorem C7_positional_args:
  "positional_args (''--'' # rest) = rest \<and>
   (arguments = [] \<or> hd arguments \<noteq> ''--'' \<longrightarrow>
      positional_args arguments = takeWhile (\<lambda>a. \<not> startswith a ''-'') arguments \<and>
      (\<forall>a \<in> set (positional_args arguments). \<not> startswith a ''-'') \<and>
      (\<exists>later. arguments = positional_args arguments @ later \<and>
         (later = [] \<or> startswith (hd later) ''-''))) \<and>
   positional_args [''arg1'', ''arg2'', ''--kwarg''] = [''arg1'', ''arg2''] \<and>
   positional_args [''--'', ''arg1'', ''--kwarg''] = [''arg1'', ''--kwarg'']"
proof (intro conjI impI)
  show "positional_args (''--'' # rest) = rest"
    by (simp add: positional_args_def)
next
  assume h: "arguments = [] \<or> hd arguments \<noteq> ''--''"
  then show eq: "positional_args arguments = takeWhile (\<lambda>a. \<not> startswith a ''-'') arguments"
    by (auto simp: positional_args_def positional_loop_takeWhile)
  show "\<forall>a \<in> set (positional_args arguments). \<not> startswith a ''-''"
    unfolding eq by (auto dest: set_takeWhileD)
  have "arguments = positional_args arguments @ dropWhile (\<lambda>a. \<not> startswith a ''-'') arguments"
    unfolding eq by simp
  moreover have "dropWhile (\<lambda>a. \<not> startswith a ''-'') arguments = [] \<or>
      startswith (hd (dropWhile (\<lambda>a. \<not> startswith a ''-'') arguments)) ''-''"
    using hd_dropWhile [of "\<lambda>a. \<not> startswith a ''-''" arguments] by blast
  ultimately show "\<exists>later. arguments = positional_args arguments @ later \<and>
         (later = [] \<or> startswith (hd later) ''-'')"
    by blast
next
  show "positional_args [''arg1'', ''arg2'', ''--kwarg''] = [''arg1'', ''arg2'']"
    by (simp add: positional_args_def startswith_def)
  show "positional_args [''--'', ''arg1'', ''--kwarg''] = [''arg1'', ''--kwarg'']"
    by (simp add: positional_args_def)
qed

theorem C7_positional_args_witness:
  "hd [''a'', ''b'', ''-c'', ''d''] \<noteq> ''--'' \<and>
   positional_args [''--'', ''-x'', ''y''] = [''-x'', ''y''] \<and>
   positional_args [''a'', ''b'', ''-c'', ''d''] = [''a'', ''b'']"
  using C7_positional_args [of "[''-x'', ''y'']" "[''a'', ''b'', ''-c'', ''d'']"]
  by (simp add: startswith_def)

section \<open>Brace expansion: the examples and the segments\<close>

lemma spans_ok_mono: "p' \<le> p \<Longrightarrow> spans_ok p ms n \<Longrightarrow> spans_ok p' ms n"
  by (cases ms) auto

lemma spans_ok_bound: "spans_ok p ms n \<Longrightarrow> p \<le> n"
proof (induction ms arbitrary: p)
  case Nil
  then show ?case by simp
next
  case (Cons m ms)
  then have "m_end m \<le> n" by simp
  with Cons.prems show ?case by simp
qed

lemma finditer_curly_from_spans:
  "spans_ok pos (finditer_curly_from pos s) (pos + length s)"
proof (induction pos s rule: finditer_curly_from.induct)
  case (1 pos)
  then show ?case by simp
next
  case (2 pos c cs)
  show ?case
  proof (cases "match_curly (c # cs)")
    case None
    then have "spans_ok (Suc pos) (finditer_curly_from (Suc pos) cs) (Suc pos + length cs)"
      using "2.IH"(1) by simp
    then have "spans_ok pos (finditer_curly_from (Suc pos) cs) (pos + length (c # cs))"
      using spans_ok_mono [of pos "Suc pos"] by simp
    with None show ?thesis by simp
  next
    case (Some a)
    obtain g rest where a: "a = (g, rest)" by (cases a)
    have parts: "c # cs = g @ rest" using match_curly_parts Some a by blast
    have "spans_ok (pos + length g) (finditer_curly_from (pos + length g) rest)
        (pos + length g + length rest)"
      using "2.IH"(2) [OF Some a [symmetric]] .
    moreover have "pos + length g + length rest = pos + length (c # cs)"
      unfolding parts by simp
    ultimately show ?thesis
      using Some a by simp
  qed
qed

lemma replace_curly_step:
  assumes "a \<le> b" "b \<le> length s"
  shows "replace_curly (map (\<lambda>t. take b s @ t) ts) (Match a b g) =
     concat (map (\<lambda>alt. map (\<lambda>t. take a s @ alt @ t) ts)
                 (re_split_sep CHR '','' (inner_text g)))"
proof -
  have "\<And>t. take a (take b s @ t) = take a s"
    using assms by (simp add: min_absorb2)
  moreover have "\<And>t. drop b (take b s @ t) = t"
    using assms by simp
  ultimately show ?thesis
    by (simp add: replace_curly_def comp_def)
qed

lemma expand_fold_cartesian:
  "spans_ok p ms (length s) \<Longrightarrow>
   foldr (\<lambda>m acc. replace_curly acc m) ms [s] = map (\<lambda>t. take p s @ t) (cartesian s p ms)"
proof (induction ms arbitrary: p)
  case Nil
  then show ?case by simp
next
  case (Cons m ms)
  obtain a b g where m: "m = Match a b g" by (cases m)
  from Cons.prems m have pa: "p \<le> a" and ab: "a \<le> b" and ok: "spans_ok b ms (length s)"
    by simp_all
  have bl: "b \<le> length s" using ok by (rule spans_ok_bound)
  have ih: "foldr (\<lambda>m acc. replace_curly acc m) ms [s] = map (\<lambda>t. take b s @ t) (cartesian s b ms)"
    using Cons.IH [OF ok] .
  have tk: "take p s @ slice s p a = take a s"
    using pa take_add [of p "a - p" s] by (simp add: slice_def)
  have "foldr (\<lambda>m acc. replace_curly acc m) (m # ms) [s] =
      concat (map (\<lambda>alt. map (\<lambda>t. take a s @ alt @ t) (cartesian s b ms))
                 (re_split_sep CHR '','' (inner_text g)))"
    unfolding m by (simp add: ih replace_curly_step [OF ab bl])
  also have "\<dots> = map (\<lambda>t. take p s @ t) (cartesian s p (m # ms))"
    unfolding m using tk
    by (simp add: map_concat comp_def append_assoc [symmetric] del: append_assoc)
  finally show ?case .
qed

lemma expand_curlys_cartesian: "expand_curlys s = cartesian s 0 (finditer_curly s)"
proof -
  have "spans_ok 0 (finditer_curly s) (length s)"
    using finditer_curly_from_spans [of 0 s] by (simp add: finditer_curly_def)
  then have "foldr (\<lambda>m acc. replace_curly acc m) (finditer_curly s) [s] =
      map (\<lambda>t. take 0 s @ t) (cartesian s 0 (finditer_curly s))"
    by (rule expand_fold_cartesian)
  then show ?thesis
    by (simp add: expand_curlys_def foldr_conv_foldl)
qed

text \<open>
  Claim C1. The expansion of a segment is the cartesian product of the alternatives of its
  brace groups, the rightmost group varying fastest, and the expansion of a top-level list
  is the concatenation, in segment order, of the products of its segments. The top-level
  list \<^verbatim>\<open>{py26,py27}-django{15,16}, py32\<close> expands to the five names of the
  specification, and \<^verbatim>\<open>py{26,27}\<close> expands to \<^verbatim>\<open>py26\<close>, \<^verbatim>\<open>py27\<close>.
\<close>

theorem C1_bash_expand:
  "expand_curlys s = cartesian s 0 (finditer_curly s) \<and>
   bash_expand s =
     concat (map (\<lambda>seg. cartesian seg 0 (finditer_curly seg)) (split_out_of_braces s)) \<and>
   bash_expand ''{py26,py27}-django{15,16}, py32'' =
     [''py26-django15'', ''py26-django16'', ''py27-django15'', ''py27-django16'', ''py32''] \<and>
   expand_curlys ''py{26,27}'' = [''py26'', ''py27'']"
proof (intro conjI)
  show "expand_curlys s = cartesian s 0 (finditer_curly s)"
    by (rule expand_curlys_cartesian)
  have "expand_curlys = (\<lambda>seg. cartesian seg 0 (finditer_curly seg))"
    by (rule ext) (rule expand_curlys_cartesian)
  then show "bash_expand s =
     concat (map (\<lambda>seg. cartesian seg 0 (finditer_curly seg)) (split_out_of_braces s))"
    by (simp add: bash_expand_def)
  show "bash_expand ''{py26,py27}-django{15,16}, py32'' =
     [''py26-django15'', ''py26-django16'', ''py27-django15'', ''py27-django16'', ''py32'']"
    by code_simp
  show "expand_curlys ''py{26,27}'' = [''py26'', ''py27'']"
    by code_simp
qed

lemma split_loop_no_empty: "[] \<notin> set (split_loop s prev ms)"
  by (induction ms arbitrary: prev) (simp_all add: Let_def)

text \<open>
  Claim C10. \<open>bash_expand\<close> of the empty string is the empty list; the empty segments
  that leading, trailing or consecutive top-level commas would give are dropped; in
  general no segment that \<open>split_out_of_braces\<close> yields is empty, and the result is the
  concatenation of the expansions of the segments it yields.
\<close>

theorem C10_empty_segments:
  "bash_expand [] = [] \<and>
   bash_expand ''a,,b'' = [''a'', ''b''] \<and>
   bash_expand '',a'' = [''a''] \<and>
   bash_expand ''a,'' = [''a''] \<and>
   [] \<notin> set (split_out_of_braces s) \<and>
   bash_expand s = concat (map expand_curlys (split_out_of_braces s))"
proof (intro conjI)
  show "bash_expand [] = []" by code_simp
  show "bash_expand ''a,,b'' = [''a'', ''b'']" by code_simp
  show "bash_expand '',a'' = [''a'']" by code_simp
  show "bash_expand ''a,'' = [''a'']" by code_simp
  show "[] \<notin> set (split_out_of_braces s)"
    unfolding split_out_of_braces_def by (rule split_loop_no_empty)
  show "bash_expand s = concat (map expand_curlys (split_out_of_braces s))"
    by (simp add: bash_expand_def)
qed

section \<open>Factor conditions: the three cases\<close>

lemma factor_examples:
  "re_split_sep CHR '':'' ''py{33,34}: docformatter'' = [''py{33,34}'', ''docformatter'']"
  "bash_expand ''py{33,34}'' = [''py33'', ''py34'']"
  "split_char CHR ''-'' ''py34-foo'' = [''py34'', ''foo'']"
  "split_char CHR ''-'' ''py26-foo'' = [''py26'', ''foo'']"
  "re_split_sep CHR '':'' ''env:FOO: bar'' = [''env'', ''FOO'', ''bar'']"
  by code_simp+


text \<open>
  Claim C6. When the split of the segment on a colon with optional white space around it
  gives exactly two parts and the left one is not \<^verbatim>\<open>env\<close>, \<open>expand_factor_conditions\<close>
  returns the right part if a label of the brace expansion of the left part is among the
  parts of the environment's name split on \<^verbatim>\<open>-\<close>, and the empty string if none is. In
  every other case (a number of parts other than two, in particular no colon, or a left
  part \<^verbatim>\<open>env\<close>) it returns the segment unchanged. The three examples of the
  specification evaluate as stated.
\<close>

theorem C6_expand_factor_conditions:
  "(re_split_sep CHR '':'' s = [l, r] \<and> l \<noteq> ''env'' \<longrightarrow>
      expand_factor_conditions s env =
        (if set (bash_expand l) \<inter> set (split_char CHR ''-'' (name env)) \<noteq> {} then r else [])) \<and>
   (length (re_split_sep CHR '':'' s) \<noteq> 2 \<or> hd (re_split_sep CHR '':'' s) = ''env'' \<longrightarrow>
      expand_factor_conditions s env = s) \<and>
   (CHR '':'' \<notin> set s \<longrightarrow> expand_factor_conditions s env = s) \<and>
   expand_factor_conditions ''py{33,34}: docformatter'' (env\<lparr>name := ''py34-foo''\<rparr>) = ''docformatter'' \<and>
   expand_factor_conditions ''py{33,34}: docformatter'' (env\<lparr>name := ''py26-foo''\<rparr>) = [] \<and>
   expand_factor_conditions ''env:FOO: bar'' env = ''env:FOO: bar''"
proof (intro conjI impI)
  assume "re_split_sep CHR '':'' s = [l, r] \<and> l \<noteq> ''env''"
  then show "expand_factor_conditions s env =
        (if set (bash_expand l) \<inter> set (split_char CHR ''-'' (name env)) \<noteq> {} then r else [])"
    by (simp add: expand_factor_conditions_def)
next
  assume "length (re_split_sep CHR '':'' s) \<noteq> 2 \<or> hd (re_split_sep CHR '':'' s) = ''env''"
  then show "expand_factor_conditions s env = s"
    using re_split_sep_not_Nil [of "CHR '':''" s]
    by (auto simp: expand_factor_conditions_def hd_conv_nth)
next
  assume "CHR '':'' \<notin> set s"
  then show "expand_factor_conditions s env = s"
    by (simp add: expand_factor_conditions_def re_split_sep_no_sep)
next
  show "expand_factor_conditions ''py{33,34}: docformatter'' (env\<lparr>name := ''py34-foo''\<rparr>) = ''docformatter''"
    by (simp add: expand_factor_conditions_def factor_examples del: re_split_sep.simps split_char.simps)
  show "expand_factor_conditions ''py{33,34}: docformatter'' (env\<lparr>name := ''py26-foo''\<rparr>) = []"
    by (simp add: expand_factor_conditions_def factor_examples del: re_split_sep.simps split_char.simps)
  show "expand_factor_conditions ''env:FOO: bar'' env = ''env:FOO: bar''"
    by (simp add: expand_factor_conditions_def factor_examples del: re_split_sep.simps split_char.simps)
qed

theorem C6_expand_factor_conditions_witness:
  "re_split_sep CHR '':'' ''a,b : c d'' = [''a,b'', ''c d''] \<and>
   expand_factor_conditions ''a,b : c d''
     \<lparr>name = ''x-b'', options = [], config = (\<lambda>_ _. None), attrs = (\<lambda>_. None)\<rparr> = ''c d'' \<and>
   length (re_split_sep CHR '':'' ''a:b:c'') = 3 \<and>
   expand_factor_conditions ''a:b:c''
     \<lparr>name = ''a'', options = [], config = (\<lambda>_ _. None), attrs = (\<lambda>_. None)\<rparr> = ''a:b:c'' \<and>
   expand_factor_conditions ''plain''
     \<lparr>name = ''a'', options = [], config = (\<lambda>_ _. None), attrs = (\<lambda>_. None)\<rparr> = ''plain''"
proof -
  have a: "re_split_sep CHR '':'' ''a,b : c d'' = [''a,b'', ''c d'']" by code_simp
  have b: "bash_expand ''a,b'' = [''a'', ''b'']" by code_simp
  have c: "split_char CHR ''-'' ''x-b'' = [''x'', ''b'']" by code_simp
  have d: "re_split_sep CHR '':'' ''a:b:c'' = [''a'', ''b'', ''c'']" by code_simp
  show ?thesis
    using C6_expand_factor_conditions [of "''a,b : c d''" "''a,b''" "''c d''"
        "\<lparr>name = ''x-b'', options = [], config = (\<lambda>_ _. None), attrs = (\<lambda>_. None)\<rparr>"]
      C6_expand_factor_conditions [of "''a:b:c''" "''a''" "''b''"
        "\<lparr>name = ''a'', options = [], config = (\<lambda>_ _. None), attrs = (\<lambda>_. None)\<rparr>"]
      C6_expand_factor_conditions [of "''plain''" "''a''" "''b''"
        "\<lparr>name = ''a'', options = [], config = (\<lambda>_ _. None), attrs = (\<lambda>_. None)\<rparr>"]
    by (simp add: a b c d del: re_split_sep.simps split_char.simps)
qed


section \<open>The environment-variable substitution\<close>

text \<open>
  Claim C4. \<^verbatim>\<open>env:KEY\<close> gives the value of \<open>KEY\<close> and raises \<^verbatim>\<open>KeyError\<close> when
  \<open>KEY\<close> is unset; \<^verbatim>\<open>env:KEY:DEFAULT\<close> gives the value of \<open>KEY\<close> when set and
  \<open>DEFAULT\<close> when unset, and never fails; a text with one part, with more than three
  parts, or whose first part is not \<^verbatim>\<open>env\<close> makes \<open>replace_envvar\<close> raise
  \<^verbatim>\<open>TypeError\<close>. In \<open>replace_match\<close>, for a text that is no attribute: that
  \<^verbatim>\<open>TypeError\<close> is swallowed and the result is that of the configuration substitution,
  or, when that one does not apply either, that of the positional-arguments substitution,
  or, when none applies, \<^verbatim>\<open>NotImplementedError\<close>; the value found for \<^verbatim>\<open>env:KEY\<close> or
  \<^verbatim>\<open>env:KEY:DEFAULT\<close> is the result; and the \<^verbatim>\<open>KeyError\<close> of an unset \<open>KEY\<close>
  leaves the loop over the substitutions and the whole call of \<open>replace_braces\<close>.
\<close>

theorem C4_replace_envvar:
  "(CHR '':'' \<notin> set key \<longrightarrow>
      replace_envvar environ (''env:'' @ key) env =
        (case environ key of None \<Rightarrow> Inl (KeyError key) | Some v \<Rightarrow> Inr v)) \<and>
   (CHR '':'' \<notin> set key \<and> CHR '':'' \<notin> set dflt \<longrightarrow>
      replace_envvar environ (''env:'' @ key @ '':'' @ dflt) env =
        Inr (case environ key of None \<Rightarrow> dflt | Some v \<Rightarrow> v)) \<and>
   (length (split_char CHR '':'' s) = 1 \<or> 3 < length (split_char CHR '':'' s) \<or>
    hd (split_char CHR '':'' s) \<noteq> ''env'' \<longrightarrow>
      replace_envvar environ s env = Inl TypeError \<and>
      try_strategies [replace_envvar, replace_config, replace_posargs] environ s env =
        try_strategies [replace_config, replace_posargs] environ s env) \<and>
   (s = strip (inner_text (m_group m)) \<and> getattr env s = None \<and>
    (length (split_char CHR '':'' s) = 1 \<or> 3 < length (split_char CHR '':'' s) \<or>
     hd (split_char CHR '':'' s) \<noteq> ''env'') \<longrightarrow>
      replace_match environ m env =
        (if replace_config environ s env \<noteq> Inl TypeError
         then map_sum id PStr (replace_config environ s env)
         else if replace_posargs environ s env \<noteq> Inl TypeError
         then map_sum id PStr (replace_posargs environ s env)
         else Inl (NotImplementedError (''{'' @ s @ ''} not understood in tox.ini file.'')))) \<and>
   (CHR '':'' \<notin> set key \<and> ''env:'' @ key = strip (inner_text (m_group m)) \<and>
    getattr env (''env:'' @ key) = None \<longrightarrow>
      replace_match environ m env =
        (case environ key of None \<Rightarrow> Inl (KeyError key) | Some v \<Rightarrow> Inr (PStr v))) \<and>
   (CHR '':'' \<notin> set key \<and> CHR '':'' \<notin> set dflt \<and>
    ''env:'' @ key @ '':'' @ dflt = strip (inner_text (m_group m)) \<and>
    getattr env (''env:'' @ key @ '':'' @ dflt) = None \<longrightarrow>
      replace_match environ m env =
        Inr (PStr (case environ key of None \<Rightarrow> dflt | Some v \<Rightarrow> v))) \<and>
   (CHR '':'' \<notin> set key \<and> list_all nobrace key \<and> (key = [] \<or> \<not> isspace (last key)) \<and>
    getattr env (''env:'' @ key) = None \<and> environ key = None \<longrightarrow>
      replace_braces environ (''{env:'' @ key @ ''}'') env = Inl (KeyError key))"
proof -
  have c1: "replace_envvar environ (''env:'' @ key) env =
        (case environ key of None \<Rightarrow> Inl (KeyError key) | Some v \<Rightarrow> Inr v)"
    if "CHR '':'' \<notin> set key" for key
    using that split_colon_env2 [of key]
    by (simp add: replace_envvar_def split: option.splits)
  have c2: "replace_envvar environ (''env:'' @ key @ '':'' @ dflt) env =
        Inr (case environ key of None \<Rightarrow> dflt | Some v \<Rightarrow> v)"
    if "CHR '':'' \<notin> set key \<and> CHR '':'' \<notin> set dflt"
    using that split_colon_env3 [of key dflt]
    by (simp add: replace_envvar_def split: option.splits)
  have c3: "replace_envvar environ s env = Inl TypeError"
    if "length (split_char CHR '':'' s) = 1 \<or> 3 < length (split_char CHR '':'' s) \<or>
        hd (split_char CHR '':'' s) \<noteq> ''env''"
    using that by (auto simp: replace_envvar_def)
  have c3': "try_strategies [replace_envvar, replace_config, replace_posargs] environ s env =
        try_strategies [replace_config, replace_posargs] environ s env"
    if "length (split_char CHR '':'' s) = 1 \<or> 3 < length (split_char CHR '':'' s) \<or>
        hd (split_char CHR '':'' s) \<noteq> ''env''"
    using c3 [OF that] by simp
  have c4: "replace_match environ m env =
        (if replace_config environ s env \<noteq> Inl TypeError
         then map_sum id PStr (replace_config environ s env)
         else if replace_posargs environ s env \<noteq> Inl TypeError
         then map_sum id PStr (replace_posargs environ s env)
         else Inl (NotImplementedError (''{'' @ s @ ''} not understood in tox.ini file.'')))"
    if "s = strip (inner_text (m_group m)) \<and> getattr env s = None \<and>
        (length (split_char CHR '':'' s) = 1 \<or> 3 < length (split_char CHR '':'' s) \<or>
         hd (split_char CHR '':'' s) \<noteq> ''env'')"
    using that c3 replace_match_fallthrough [of s m env environ] by blast
  have c5: "replace_match environ m env =
        (case environ key of None \<Rightarrow> Inl (KeyError key) | Some v \<Rightarrow> Inr (PStr v))"
    if h: "CHR '':'' \<notin> set key \<and> ''env:'' @ key = strip (inner_text (m_group m)) \<and>
        getattr env (''env:'' @ key) = None" for key m
  proof -
    have r: "replace_envvar environ (''env:'' @ key) env =
        (case environ key of None \<Rightarrow> Inl (KeyError key) | Some v \<Rightarrow> Inr v)"
      using c1 h by blast
    then have ne: "replace_envvar environ (''env:'' @ key) env \<noteq> Inl TypeError"
      by (simp split: option.splits)
    have h2: "''env:'' @ key = strip (inner_text (m_group m))"
      and h3: "getattr env (''env:'' @ key) = None"
      using h by (rule conjunct2 [THEN conjunct1], rule conjunct2 [THEN conjunct2])
    have "replace_match environ m env =
        map_sum id PStr (replace_envvar environ (''env:'' @ key) env)"
      by (rule replace_match_envvar_result [OF h2 h3 ne])
    then show ?thesis
      unfolding r by (simp split: option.splits)
  qed
  have c6: "replace_match environ m env =
        Inr (PStr (case environ key of None \<Rightarrow> dflt | Some v \<Rightarrow> v))"
    if h: "CHR '':'' \<notin> set key \<and> CHR '':'' \<notin> set dflt \<and>
        ''env:'' @ key @ '':'' @ dflt = strip (inner_text (m_group m)) \<and>
        getattr env (''env:'' @ key @ '':'' @ dflt) = None"
  proof -
    have r: "replace_envvar environ (''env:'' @ key @ '':'' @ dflt) env =
        Inr (case environ key of None \<Rightarrow> dflt | Some v \<Rightarrow> v)"
      using c2 h by blast
    then have ne: "replace_envvar environ (''env:'' @ key @ '':'' @ dflt) env \<noteq> Inl TypeError"
      by simp
    have h2: "''env:'' @ key @ '':'' @ dflt = strip (inner_text (m_group m))"
      and h3: "getattr env (''env:'' @ key @ '':'' @ dflt) = None"
      using h by (rule conjunct2 [THEN conjunct2, THEN conjunct1],
          rule conjunct2 [THEN conjunct2, THEN conjunct2])
    have "replace_match environ m env =
        map_sum id PStr (replace_envvar environ (''env:'' @ key @ '':'' @ dflt) env)"
      by (rule replace_match_envvar_result [OF h2 h3 ne])
    then show ?thesis
      unfolding r by simp
  qed
  have c7: "replace_braces environ (''{env:'' @ key @ ''}'') env = Inl (KeyError key)"
    if h: "CHR '':'' \<notin> set key \<and> list_all nobrace key \<and> (key = [] \<or> \<not> isspace (last key)) \<and>
        getattr env (''env:'' @ key) = None \<and> environ key = None"
  proof -
    define inner where "inner = ''env:'' @ key"
    have nb: "list_all nobrace inner"
      using h by (simp add: inner_def nobrace_def)
    have la: "last inner = (if key = [] then CHR '':'' else last key)"
      by (simp add: inner_def)
    have "\<not> isspace (last inner)"
      unfolding la using h by (auto simp: isspace_def)
    moreover have "inner \<noteq> []" "\<not> isspace (hd inner)"
      by (simp_all add: inner_def isspace_def)
    ultimately have st: "strip inner = inner"
      by (intro strip_id)
    have it: "inner_text (CHR ''{'' # inner @ ''}'') = inner"
      by (simp add: inner_text_def butlast_append)
    have eq: "strip (inner_text (m_group (Match 0 (length inner + 2)
        (CHR ''{'' # inner @ ''}'')))) = inner"
      by (simp add: it st)
    have A: "''env:'' @ key = strip (inner_text (m_group (Match 0 (length inner + 2)
        (CHR ''{'' # inner @ ''}''))))"
      unfolding eq by (simp add: inner_def)
    have k1: "CHR '':'' \<notin> set key" and g: "getattr env (''env:'' @ key) = None"
      and un: "environ key = None"
      using h by simp_all
    have "replace_match environ (Match 0 (length inner + 2) (CHR ''{'' # inner @ ''}'')) env =
        (case environ key of None \<Rightarrow> Inl (KeyError key) | Some v \<Rightarrow> Inr (PStr v))"
      by (rule c5 [OF conjI [OF k1 conjI [OF A g]]])
    then have "replace_match environ (Match 0 (length inner + 2) (CHR ''{'' # inner @ ''}'')) env =
        Inl (KeyError key)"
      unfolding un by simp
    then have "replace_braces environ (CHR ''{'' # inner @ ''}'') env = Inl (KeyError key)"
      using single_group_call [OF nb] by blast
    then show ?thesis by (simp add: inner_def)
  qed
  show ?thesis
    using c1 [of key] c2 c3 c3' c4 c5 [of key m] c6 c7 by blast
qed

theorem C4_replace_envvar_witness:
  "replace_envvar Map.empty ''env:HOME'' example_env = Inl (KeyError ''HOME'') \<and>
   replace_envvar Map.empty ''env:HOME:/tmp'' example_env = Inr ''/tmp'' \<and>
   length (split_char CHR '':'' ''env:a:b:c'') = 4 \<and>
   replace_envvar Map.empty ''env:a:b:c'' example_env = Inl TypeError \<and>
   ''posargs:x'' = strip (inner_text (m_group (Match 0 11 ''{posargs:x}''))) \<and>
   getattr example_env ''posargs:x'' = None \<and>
   hd (split_char CHR '':'' ''posargs:x'') \<noteq> ''env'' \<and>
   replace_config Map.empty ''posargs:x'' example_env = Inl TypeError \<and>
   replace_posargs Map.empty ''posargs:x'' example_env = Inr ''x'' \<and>
   replace_match Map.empty (Match 0 11 ''{posargs:x}'') example_env = Inr (PStr ''x'') \<and>
   replace_match Map.empty (Match 0 10 ''{env:HOME}'') example_env = Inl (KeyError ''HOME'') \<and>
   replace_match Map.empty (Match 0 15 ''{env:HOME:/tmp}'') example_env = Inr (PStr ''/tmp'') \<and>
   replace_braces Map.empty ''{env:HOME}'' example_env = Inl (KeyError ''HOME'')"
proof -
  note a = C4_replace_envvar [where key = "''HOME''" and dflt = "''/tmp''" and environ = Map.empty
      and env = example_env and s = "''env:a:b:c''" and m = "Match 0 10 ''{env:HOME}''"]
  note b = C4_replace_envvar [where key = "''HOME''" and dflt = "''/tmp''" and environ = Map.empty
      and env = example_env and s = "''posargs:x''" and m = "Match 0 11 ''{posargs:x}''"]
  note c = C4_replace_envvar [where key = "''HOME''" and dflt = "''/tmp''" and environ = Map.empty
      and env = example_env and s = "''posargs:x''" and m = "Match 0 15 ''{env:HOME:/tmp}''"]
  have k: "CHR '':'' \<notin> set ''HOME''" and d: "CHR '':'' \<notin> set ''/tmp''"
    by simp_all
  have w1: "replace_envvar Map.empty (''env:'' @ ''HOME'') example_env =
      (case Map.empty ''HOME'' of None \<Rightarrow> Inl (KeyError ''HOME'') | Some v \<Rightarrow> Inr v)"
    by (rule mp [OF a [THEN conjunct1] k])
  have w2: "replace_envvar Map.empty (''env:'' @ ''HOME'' @ '':'' @ ''/tmp'') example_env =
      Inr (case Map.empty ''HOME'' of None \<Rightarrow> ''/tmp'' | Some v \<Rightarrow> v)"
    by (rule mp [OF a [THEN conjunct2, THEN conjunct1]]) (intro conjI k d)
  have l: "length (split_char CHR '':'' ''env:a:b:c'') = 4"
    by code_simp
  have sh: "length (split_char CHR '':'' ''env:a:b:c'') = 1 \<or>
      3 < length (split_char CHR '':'' ''env:a:b:c'') \<or>
      hd (split_char CHR '':'' ''env:a:b:c'') \<noteq> ''env''"
    unfolding l by simp
  have w3: "replace_envvar Map.empty ''env:a:b:c'' example_env = Inl TypeError"
    using mp [OF a [THEN conjunct2, THEN conjunct2, THEN conjunct1] sh] by (rule conjunct1)
  have u: "''posargs:x'' = strip (inner_text (m_group (Match 0 11 ''{posargs:x}'')))"
    by code_simp
  have g: "getattr example_env ''posargs:x'' = None"
    by code_simp
  have hd: "hd (split_char CHR '':'' ''posargs:x'') \<noteq> ''env''"
    by code_simp
  have sh2: "length (split_char CHR '':'' ''posargs:x'') = 1 \<or>
      3 < length (split_char CHR '':'' ''posargs:x'') \<or>
      hd (split_char CHR '':'' ''posargs:x'') \<noteq> ''env''"
    using hd by (intro disjI2)
  have rc: "replace_config Map.empty ''posargs:x'' example_env = Inl TypeError"
    by code_simp
  have rp: "replace_posargs Map.empty ''posargs:x'' example_env = Inr ''x''"
    by code_simp
  have "replace_match Map.empty (Match 0 11 ''{posargs:x}'') example_env =
        (if replace_config Map.empty ''posargs:x'' example_env \<noteq> Inl TypeError
         then map_sum id PStr (replace_config Map.empty ''posargs:x'' example_env)
         else if replace_posargs Map.empty ''posargs:x'' example_env \<noteq> Inl TypeError
         then map_sum id PStr (replace_posargs Map.empty ''posargs:x'' example_env)
         else Inl (NotImplementedError (''{'' @ ''posargs:x'' @ ''} not understood in tox.ini file.'')))"
    by (rule mp [OF b [THEN conjunct2, THEN conjunct2, THEN conjunct2, THEN conjunct1]])
       (intro conjI u g sh2)
  then have w4: "replace_match Map.empty (Match 0 11 ''{posargs:x}'') example_env = Inr (PStr ''x'')"
    unfolding rc rp by simp
  have u5: "''env:'' @ ''HOME'' = strip (inner_text (m_group (Match 0 10 ''{env:HOME}'')))"
    by code_simp
  have g5: "getattr example_env (''env:'' @ ''HOME'') = None"
    by code_simp
  have "replace_match Map.empty (Match 0 10 ''{env:HOME}'') example_env =
      (case Map.empty ''HOME'' of None \<Rightarrow> Inl (KeyError ''HOME'') | Some v \<Rightarrow> Inr (PStr v))"
    by (rule mp [OF a [THEN conjunct2, THEN conjunct2, THEN conjunct2, THEN conjunct2,
          THEN conjunct1]]) (intro conjI k u5 g5)
  then have w5: "replace_match Map.empty (Match 0 10 ''{env:HOME}'') example_env =
      Inl (KeyError ''HOME'')"
    by simp
  have u6: "''env:'' @ ''HOME'' @ '':'' @ ''/tmp'' =
      strip (inner_text (m_group (Match 0 15 ''{env:HOME:/tmp}'')))"
    by code_simp
  have g6: "getattr example_env (''env:'' @ ''HOME'' @ '':'' @ ''/tmp'') = None"
    by code_simp
  have "replace_match Map.empty (Match 0 15 ''{env:HOME:/tmp}'') example_env =
      Inr (PStr (case Map.empty ''HOME'' of None \<Rightarrow> ''/tmp'' | Some v \<Rightarrow> v))"
    by (rule mp [OF c [THEN conjunct2, THEN conjunct2, THEN conjunct2, THEN conjunct2,
          THEN conjunct2, THEN conjunct1]]) (intro conjI k d u6 g6)
  then have w6: "replace_match Map.empty (Match 0 15 ''{env:HOME:/tmp}'') example_env =
      Inr (PStr ''/tmp'')"
    by simp
  have nb: "list_all nobrace ''HOME''" and sp: "''HOME'' = [] \<or> \<not> isspace (last ''HOME'')"
    and un: "Map.empty ''HOME'' = (None :: string option)"
    by (simp_all add: nobrace_def isspace_def)
  have "replace_braces Map.empty (''{env:'' @ ''HOME'' @ ''}'') example_env = Inl (KeyError ''HOME'')"
    by (rule mp [OF a [THEN conjunct2, THEN conjunct2, THEN conjunct2, THEN conjunct2,
          THEN conjunct2, THEN conjunct2]]) (intro conjI k nb sp g5 un)
  then have w7: "replace_braces Map.empty ''{env:HOME}'' example_env = Inl (KeyError ''HOME'')"
    by simp
  have w1': "replace_envvar Map.empty ''env:HOME'' example_env = Inl (KeyError ''HOME'')"
    using w1 by simp
  have w2': "replace_envvar Map.empty ''env:HOME:/tmp'' example_env = Inr ''/tmp''"
    using w2 by simp
  show ?thesis
    by (intro conjI w1' w2' l w3 u g hd rc rp w4 w5 w6 w7)
qed

section \<open>The positional-arguments substitution\<close>

text \<open>
  Claim C5. \<^verbatim>\<open>posargs:DEFAULT\<close>, for a default without a colon that does not begin with
  white space, gives the positional arguments joined with single spaces when that text is
  not empty, and the default otherwise. The bare form \<^verbatim>\<open>posargs\<close> gives the joined
  arguments when there are some; when there are none the function reads \<^verbatim>\<open>e[1]\<close> of a
  list of one element and raises \<^verbatim>\<open>IndexError\<close>, which nothing catches:
  \<open>replace_braces\<close> of \<^verbatim>\<open>{posargs}\<close> without positional arguments raises it, where the
  claim names the empty string.
\<close>

theorem C5_replace_posargs:
  "(CHR '':'' \<notin> set dflt \<and> (dflt = [] \<or> \<not> isspace (hd dflt)) \<longrightarrow>
      replace_posargs environ (''posargs:'' @ dflt) env =
        Inr (if join '' '' (positional_args (options env)) \<noteq> []
             then join '' '' (positional_args (options env)) else dflt)) \<and>
   (join '' '' (positional_args (options env)) \<noteq> [] \<longrightarrow>
      replace_posargs environ ''posargs'' env = Inr (join '' '' (positional_args (options env)))) \<and>
   (join '' '' (positional_args (options env)) = [] \<longrightarrow>
      replace_posargs environ ''posargs'' env = Inl IndexError) \<and>
   replace_braces environ ''{posargs}''
     \<lparr>name = n, options = [], config = c, attrs = (\<lambda>_. None)\<rparr> = Inl IndexError"
proof (intro conjI impI)
  assume "CHR '':'' \<notin> set dflt \<and> (dflt = [] \<or> \<not> isspace (hd dflt))"
  then have "re_split_sep CHR '':'' (''posargs:'' @ dflt) = [''posargs'', dflt]"
    using re_split_posargs [of dflt] by blast
  then show "replace_posargs environ (''posargs:'' @ dflt) env =
        Inr (if join '' '' (positional_args (options env)) \<noteq> []
             then join '' '' (positional_args (options env)) else dflt)"
    by (simp add: replace_posargs_def Let_def del: re_split_sep.simps)
next
  have e: "re_split_sep CHR '':'' ''posargs'' = [''posargs'']"
    by (rule re_split_sep_no_sep) simp
  { assume "join '' '' (positional_args (options env)) \<noteq> []"
    then show "replace_posargs environ ''posargs'' env = Inr (join '' '' (positional_args (options env)))"
      by (simp add: replace_posargs_def e Let_def del: re_split_sep.simps) }
  { assume "join '' '' (positional_args (options env)) = []"
    then show "replace_posargs environ ''posargs'' env = Inl IndexError"
      by (simp add: replace_posargs_def e Let_def del: re_split_sep.simps) }
  let ?env = "\<lparr>name = n, options = [], config = c, attrs = (\<lambda>_. None)\<rparr>"
  have m: "finditer_curly ''{posargs}'' = [Match 0 9 ''{posargs}'']"
    by code_simp
  have s: "strip (inner_text ''{posargs}'') = ''posargs''"
    by code_simp
  have g: "getattr ?env ''posargs'' = None"
    by (simp add: getattr_def)
  have t1: "replace_envvar environ ''posargs'' ?env = Inl TypeError"
    by (simp add: replace_envvar_def)
  have t2: "replace_config environ ''posargs'' ?env = Inl TypeError"
    by (simp add: replace_config_def re_match_config_def)
  have t3: "replace_posargs environ ''posargs'' ?env = Inl IndexError"
    by (simp add: replace_posargs_def e Let_def positional_args_def del: re_split_sep.simps)
  have "replace_match environ (Match 0 9 ''{posargs}'') ?env = Inl IndexError"
    by (simp add: replace_match_def s g t1 t2 t3)
  then have "re_sub_curly (\<lambda>m. replace_match environ m ?env) ''{posargs}'' = Inl IndexError"
    by (simp add: re_sub_curly_def m)
  then show "replace_braces environ ''{posargs}'' ?env = Inl IndexError"
    by (simp add: replace_braces_def DEPTH_def eval_nat_numeral)
qed

theorem C5_replace_posargs_witness:
  "replace_posargs Map.empty ''posargs:none''
     \<lparr>name = ''py'', options = [''-v'', ''x''], config = (\<lambda>_ _. None), attrs = (\<lambda>_. None)\<rparr> = Inr ''none'' \<and>
   replace_posargs Map.empty ''posargs''
     \<lparr>name = ''py'', options = [''-v'', ''x''], config = (\<lambda>_ _. None), attrs = (\<lambda>_. None)\<rparr> = Inl IndexError \<and>
   replace_posargs Map.empty ''posargs''
     \<lparr>name = ''py'', options = [''a'', ''b'', ''-v''], config = (\<lambda>_ _. None), attrs = (\<lambda>_. None)\<rparr> = Inr ''a b''"
proof -
  have p1: "positional_args [''-v'', ''x''] = []" by code_simp
  have p2: "positional_args [''a'', ''b'', ''-v''] = [''a'', ''b'']" by code_simp
  show ?thesis
    using C5_replace_posargs [where dflt = "''none''" and environ = Map.empty and env =
        "\<lparr>name = ''py'', options = [''-v'', ''x''], config = (\<lambda>_ _. None), attrs = (\<lambda>_. None)\<rparr>"]
      C5_replace_posargs [where dflt = "''none''" and environ = Map.empty and env =
        "\<lparr>name = ''py'', options = [''a'', ''b'', ''-v''], config = (\<lambda>_ _. None), attrs = (\<lambda>_. None)\<rparr>"]
    by (simp add: p1 p2 isspace_def)
qed

section \<open>The configuration substitution\<close>

lemma re_match_config_shape:
  assumes "CHR '']'' \<notin> set section" "newline \<notin> set section" "newline \<notin> set option"
  shows "re_match_config (''['' @ section @ '']'' @ option) = Some (section, option)"
proof -
  let ?P = "\<lambda>x. x \<noteq> CHR '']'' \<and> x \<noteq> newline"
  have all: "\<And>x. x \<in> set section \<Longrightarrow> ?P x" using assms by auto
  have t: "takeWhile ?P (section @ CHR '']'' # option) = section"
    using takeWhile_append2 [of "section" "?P" "CHR '']'' # option"] all by simp
  have d: "dropWhile ?P (section @ CHR '']'' # option) = CHR '']'' # option"
    using dropWhile_append2 [of "section" "?P" "CHR '']'' # option"] all by simp
  have o: "takeWhile (\<lambda>x. x \<noteq> newline) option = option"
    using assms(3) by (auto simp: takeWhile_eq_all_conv)
  show ?thesis
    by (simp add: re_match_config_def t d o)
qed

lemma factor_lines_roundtrip:
  "split_char newline (join [newline] (map (\<lambda>e. expand_factor_conditions e env) (split_char newline raw)))
     = map (\<lambda>e. expand_factor_conditions e env) (split_char newline raw)"
proof (rule split_char_join)
  show "map (\<lambda>e. expand_factor_conditions e env) (split_char newline raw) \<noteq> []"
    by (simp add: split_char_not_Nil)
  show "\<forall>p \<in> set (map (\<lambda>e. expand_factor_conditions e env) (split_char newline raw)). newline \<notin> set p"
  proof
    fix p assume "p \<in> set (map (\<lambda>e. expand_factor_conditions e env) (split_char newline raw))"
    then obtain e where e: "e \<in> set (split_char newline raw)" and p: "p = expand_factor_conditions e env"
      by auto
    have "newline \<notin> set e" using e by (rule split_char_pieces)
    then show "newline \<notin> set p"
      using expand_factor_conditions_chars [of e env] p by blast
  qed
qed


text \<open>
  Claim C8. \<^verbatim>\<open>[SECTION]OPTION\<close> is recognised with its two parts; when the lookup gives
  a text, \<open>replace_config\<close> returns the lines of that text, each one passed through
  \<open>expand_factor_conditions\<close> with the same environment, joined with newlines again. The
  result has as many lines as the text looked up, line for line, and a line whose factor
  condition fails is the empty line at the same place.
\<close>

theorem C8_replace_config:
  "(CHR '']'' \<notin> set sec \<and> newline \<notin> set sec \<and> newline \<notin> set opt \<longrightarrow>
      re_match_config (''['' @ sec @ '']'' @ opt) = Some (sec, opt)) \<and>
   (re_match_config s = Some (sec, opt) \<and> config env sec opt = Some raw \<longrightarrow>
      (\<exists>out. replace_config environ s env = Inr out \<and>
         out = join [newline] (map (\<lambda>e. expand_factor_conditions e env) (split_char newline raw)) \<and>
         split_char newline out =
           map (\<lambda>e. expand_factor_conditions e env) (split_char newline raw) \<and>
         length (split_char newline out) = length (split_char newline raw) \<and>
         (\<forall>i < length (split_char newline raw).
            length (re_split_sep CHR '':'' (split_char newline raw ! i)) = 2 \<and>
            hd (re_split_sep CHR '':'' (split_char newline raw ! i)) \<noteq> ''env'' \<and>
            set (bash_expand (hd (re_split_sep CHR '':'' (split_char newline raw ! i)))) \<inter>
              set (split_char CHR ''-'' (name env)) = {} \<longrightarrow>
            split_char newline out ! i = [])))"
proof (intro conjI impI)
  assume "CHR '']'' \<notin> set sec \<and> newline \<notin> set sec \<and> newline \<notin> set opt"
  then show "re_match_config (''['' @ sec @ '']'' @ opt) = Some (sec, opt)"
    using re_match_config_shape by blast
next
  assume h: "re_match_config s = Some (sec, opt) \<and> config env sec opt = Some raw"
  let ?lines = "split_char newline raw"
  let ?out = "join [newline] (map (\<lambda>e. expand_factor_conditions e env) ?lines)"
  have r: "replace_config environ s env = Inr ?out"
    using h by (simp add: replace_config_def)
  have rt: "split_char newline ?out = map (\<lambda>e. expand_factor_conditions e env) ?lines"
    by (rule factor_lines_roundtrip)
  have len: "length (split_char newline ?out) = length ?lines"
    by (simp add: rt)
  have empty: "\<forall>i < length ?lines.
            length (re_split_sep CHR '':'' (?lines ! i)) = 2 \<and>
            hd (re_split_sep CHR '':'' (?lines ! i)) \<noteq> ''env'' \<and>
            set (bash_expand (hd (re_split_sep CHR '':'' (?lines ! i)))) \<inter>
              set (split_char CHR ''-'' (name env)) = {} \<longrightarrow>
            split_char newline ?out ! i = []"
  proof (intro allI impI)
    fix i
    assume i: "i < length ?lines"
    assume c: "length (re_split_sep CHR '':'' (?lines ! i)) = 2 \<and>
            hd (re_split_sep CHR '':'' (?lines ! i)) \<noteq> ''env'' \<and>
            set (bash_expand (hd (re_split_sep CHR '':'' (?lines ! i)))) \<inter>
              set (split_char CHR ''-'' (name env)) = {}"
    then have "re_split_sep CHR '':'' (?lines ! i) \<noteq> []" by auto
    then have "hd (re_split_sep CHR '':'' (?lines ! i)) = re_split_sep CHR '':'' (?lines ! i) ! 0"
      by (simp add: hd_conv_nth)
    with c have "expand_factor_conditions (?lines ! i) env = []"
      by (simp add: expand_factor_conditions_def Let_def)
    with i show "split_char newline ?out ! i = []"
      by (simp add: rt)
  qed
  show "\<exists>out. replace_config environ s env = Inr out \<and>
         out = join [newline] (map (\<lambda>e. expand_factor_conditions e env) (split_char newline raw)) \<and>
         split_char newline out =
           map (\<lambda>e. expand_factor_conditions e env) (split_char newline raw) \<and>
         length (split_char newline out) = length (split_char newline raw) \<and>
         (\<forall>i < length (split_char newline raw).
            length (re_split_sep CHR '':'' (split_char newline raw ! i)) = 2 \<and>
            hd (re_split_sep CHR '':'' (split_char newline raw ! i)) \<noteq> ''env'' \<and>
            set (bash_expand (hd (re_split_sep CHR '':'' (split_char newline raw ! i)))) \<inter>
              set (split_char CHR ''-'' (name env)) = {} \<longrightarrow>
            split_char newline out ! i = [])"
    using r rt len empty by blast
qed

theorem C8_replace_config_witness:
  "re_match_config ''[testenv]deps'' = Some (''testenv'', ''deps'') \<and>
   config example_env ''testenv'' ''deps'' = Some example_deps \<and>
   split_char newline example_deps = [''py{33,34}: docformatter'', ''py26: six'', ''pytest''] \<and>
   (\<exists>out. replace_config Map.empty ''[testenv]deps'' example_env = Inr out \<and>
      out = ''docformatter'' @ [newline, newline] @ ''pytest'' \<and>
      length (split_char newline out) = 3 \<and>
      split_char newline out ! 1 = [])"
proof -
  have m: "re_match_config ''[testenv]deps'' = Some (''testenv'', ''deps'')"
    by code_simp
  have c: "config example_env ''testenv'' ''deps'' = Some example_deps"
    by (simp add: example_env_def)
  have l: "split_char newline example_deps = [''py{33,34}: docformatter'', ''py26: six'', ''pytest'']"
    by code_simp
  have n: "name example_env = ''py34-foo''"
    by (simp add: example_env_def)
  have f: "expand_factor_conditions ''py{33,34}: docformatter'' example_env = ''docformatter''"
    "expand_factor_conditions ''py26: six'' example_env = []"
    "expand_factor_conditions ''pytest'' example_env = ''pytest''"
    by (code_simp, code_simp, code_simp)
  have s: "re_split_sep CHR '':'' ''py26: six'' = [''py26'', ''six'']"
    "bash_expand ''py26'' = [''py26'']"
    "split_char CHR ''-'' ''py34-foo'' = [''py34'', ''foo'']"
    by (code_simp, code_simp, code_simp)
  from m c C8_replace_config [where s = "''[testenv]deps''" and sec = "''testenv''"
        and opt = "''deps''" and env = example_env and raw = example_deps and environ = Map.empty]
  obtain out where o: "replace_config Map.empty ''[testenv]deps'' example_env = Inr out"
    "out = join [newline] (map (\<lambda>e. expand_factor_conditions e example_env) (split_char newline example_deps))"
    "length (split_char newline out) = length (split_char newline example_deps)"
    "\<forall>i < length (split_char newline example_deps).
            length (re_split_sep CHR '':'' (split_char newline example_deps ! i)) = 2 \<and>
            hd (re_split_sep CHR '':'' (split_char newline example_deps ! i)) \<noteq> ''env'' \<and>
            set (bash_expand (hd (re_split_sep CHR '':'' (split_char newline example_deps ! i)))) \<inter>
              set (split_char CHR ''-'' (name example_env)) = {} \<longrightarrow>
            split_char newline out ! i = []"
    by blast
  have o1: "out = ''docformatter'' @ [newline, newline] @ ''pytest''"
    unfolding o(2) l by (simp add: f del: split_char.simps)
  have o2: "length (split_char newline out) = 3"
    unfolding o(3) l by simp
  have "1 < length (split_char newline example_deps)"
    unfolding l by simp
  then have o3: "split_char newline out ! 1 = []"
    using o(4) [rule_format, of 1] by (simp add: l s n del: split_char.simps re_split_sep.simps)
  show ?thesis
    using m c l o(1) o1 o2 o3 by blast
qed


section \<open>Strings without brace groups\<close>

lemma finditer_curly_from_Nil:
  "finditer_curly_from pos (c # cs) = [] \<Longrightarrow>
   match_curly (c # cs) = None \<and> finditer_curly_from (Suc pos) cs = []"
  by (auto split: option.splits)

lemma finditer_split_from_Nil:
  "finditer_curly_from pos s = [] \<Longrightarrow> CHR '','' \<notin> set s \<Longrightarrow> finditer_split_from pos s = []"
proof (induction s arbitrary: pos)
  case Nil
  then show ?case by simp
next
  case (Cons c cs)
  from Cons.prems(1) have a: "match_curly (c # cs) = None" and b: "finditer_curly_from (Suc pos) cs = []"
    using finditer_curly_from_Nil by blast+
  have "match_sep CHR '','' (c # cs) = None"
    using Cons.prems(2) by (rule match_sep_None)
  then show ?case
    using a b Cons.IH [of "Suc pos"] Cons.prems(2) by simp
qed

lemma replace_loop_no_groups:
  "finditer_curly s = [] \<Longrightarrow> replace_loop n environ s env = Inr s"
  by (induction n) (simp_all add: re_sub_curly_def)


text \<open>
  Claim C9, amended. For a string in which \<^verbatim>\<open>{[^{}]*}\<close> matches nowhere,
  \<open>expand_curlys\<close> returns the string alone and \<open>replace_braces\<close> returns the string;
  the top-level list expansion \<open>bash_expand\<close> returns the string alone when, moreover,
  the string is not empty and holds no comma.
\<close>

theorem C9_no_brace_groups:
  "finditer_curly s = [] \<longrightarrow>
     expand_curlys s = [s] \<and>
     replace_braces environ s env = Inr s \<and>
     (s \<noteq> [] \<and> CHR '','' \<notin> set s \<longrightarrow> bash_expand s = [s])"
proof (intro impI conjI)
  assume h: "finditer_curly s = []"
  then show e: "expand_curlys s = [s]"
    by (simp add: expand_curlys_def)
  show "replace_braces environ s env = Inr s"
    using h by (simp add: replace_braces_def replace_loop_no_groups)
  assume k: "s \<noteq> [] \<and> CHR '','' \<notin> set s"
  have "finditer_split_from 0 s = []"
    using h k finditer_split_from_Nil [of 0 s] by (simp add: finditer_curly_def)
  then have "split_out_of_braces s = [s]"
    using k by (simp add: split_out_of_braces_def)
  then show "bash_expand s = [s]"
    using e by (simp add: bash_expand_def)
qed

theorem C9_no_brace_groups_witness:
  "finditer_curly ''py 27}{'' = [] \<and>
   expand_curlys ''py 27}{'' = [''py 27}{''] \<and>
   replace_braces Map.empty ''py 27}{'' example_env = Inr ''py 27}{'' \<and>
   bash_expand ''py 27}{'' = [''py 27}{'']"
proof -
  have h: "finditer_curly ''py 27}{'' = []" by code_simp
  show ?thesis
    using C9_no_brace_groups [of "''py 27}{''" Map.empty example_env] h by simp
qed

text \<open>
  Claim C9 as stated fails for \<open>bash_expand\<close>: a comma splits a string without brace
  groups, and the empty string gives the empty list.
\<close>

theorem C9_counterexample:
  "finditer_curly ''a,b'' = [] \<and> bash_expand ''a,b'' = [''a'', ''b''] \<and>
   bash_expand ''a,b'' \<noteq> [''a,b''] \<and>
   finditer_curly [] = [] \<and> bash_expand [] = [] \<and> bash_expand [] \<noteq> [[]]"
  by code_simp

section \<open>Failures of the resolution\<close>

text \<open>
  Claim C3, amended. In each of the five passes the groups of the current text are
  resolved from left to right, and the first one whose resolution raises ends the whole
  call with its error: no string is returned. When that group is one whose trimmed inner
  text is no attribute and has the shape of none of the three substitutions, the error is
  \<^verbatim>\<open>NotImplementedError\<close> with a message that holds the trimmed inner text; when it
  fails in another way, its own error is raised. A group that matches no strategy, in
  whatever pass it is met, makes the call raise some error. Conversely an error of the call
  is the error of the first failing group of some pass that the passes before reached
  without error, or the \<^verbatim>\<open>TypeError\<close> of the join of \<^verbatim>\<open>re.sub\<close> when every group of
  that pass was resolved and one to an object that is no string; and a string is returned
  only when, in every pass, every group was resolved.
\<close>

theorem C3_first_failure:
  "(k < 5 \<and> replace_loop k environ s env = Inr t \<and>
    finditer_curly t = ok @ m # rest \<and>
    (\<forall>m' \<in> set ok. \<exists>v. replace_match environ m' env = Inr v) \<and>
    u = strip (inner_text (m_group m)) \<and>
    getattr env u = None \<and>
    (length (split_char CHR '':'' u) = 1 \<or> 3 < length (split_char CHR '':'' u) \<or>
       hd (split_char CHR '':'' u) \<noteq> ''env'') \<and>
    re_match_config u = None \<and>
    hd (re_split_sep CHR '':'' u) \<noteq> ''posargs'' \<longrightarrow>
      replace_braces environ s env =
        Inl (NotImplementedError (''{'' @ u @ ''} not understood in tox.ini file.''))) \<and>
   (k < 5 \<and> replace_loop k environ s env = Inr t \<and>
    finditer_curly t = ok @ m # rest \<and>
    (\<forall>m' \<in> set ok. \<exists>v. replace_match environ m' env = Inr v) \<and>
    replace_match environ m env = Inl e \<longrightarrow>
      replace_braces environ s env = Inl e) \<and>
   (k < 5 \<and> replace_loop k environ s env = Inr t \<and> m \<in> set (finditer_curly t) \<and>
    u = strip (inner_text (m_group m)) \<and>
    getattr env u = None \<and>
    (length (split_char CHR '':'' u) = 1 \<or> 3 < length (split_char CHR '':'' u) \<or>
       hd (split_char CHR '':'' u) \<noteq> ''env'') \<and>
    re_match_config u = None \<and>
    hd (re_split_sep CHR '':'' u) \<noteq> ''posargs'' \<longrightarrow>
      (\<exists>e'. replace_braces environ s env = Inl e')) \<and>
   (k < 5 \<and> replace_loop k environ s env = Inr t \<and> m \<in> set (finditer_curly t) \<and>
    replace_match environ m env = Inl e \<longrightarrow>
      (\<exists>e'. replace_braces environ s env = Inl e')) \<and>
   (replace_braces environ s env = Inl e \<longrightarrow>
      (\<exists>j w. j < 5 \<and> replace_loop j environ s env = Inr w \<and>
         ((\<exists>ok' m' rest'. finditer_curly w = ok' @ m' # rest' \<and>
             (\<forall>m'' \<in> set ok'. \<exists>v. replace_match environ m'' env = Inr v) \<and>
             replace_match environ m' env = Inl e) \<or>
          ((\<forall>m' \<in> set (finditer_curly w). \<exists>v. replace_match environ m' env = Inr v) \<and>
           (\<exists>m' \<in> set (finditer_curly w). replace_match environ m' env = Inr PObj) \<and>
           e = TypeError)))) \<and>
   (replace_braces environ s env = Inr r \<and> k < 5 \<longrightarrow>
      (\<exists>w w'. replace_loop k environ s env = Inr w \<and>
         re_sub_curly (\<lambda>m. replace_match environ m env) w = Inr w' \<and>
         (\<forall>m' \<in> set (finditer_curly w).
            \<exists>v. replace_match environ m' env = Inr v \<and> v \<noteq> PObj)))"
proof -
  let ?repl = "\<lambda>m. replace_match environ m env"
  have first: "replace_braces environ s env = Inl e"
    if "k < 5" "replace_loop k environ s env = Inr t" "finditer_curly t = ok @ m # rest"
      "\<forall>m' \<in> set ok. \<exists>v. replace_match environ m' env = Inr v"
      "replace_match environ m env = Inl e" for k t ok m rest e
  proof -
    have "re_sub_curly ?repl t = Inl e"
      using re_sub_curly_first_error [of t ok m rest ?repl e] that(3-5) by blast
    then show ?thesis
      using replace_loop_pass_error [OF that(1,2)] by (simp add: replace_braces_def DEPTH_def)
  qed
  have some: "\<exists>e'. replace_braces environ s env = Inl e'"
    if h: "k < 5" "replace_loop k environ s env = Inr t" "m \<in> set (finditer_curly t)"
      "replace_match environ m env = Inl e" for k t m e
  proof (cases "re_sub_curly ?repl t")
    case (Inl e')
    then have "replace_braces environ s env = Inl e'"
      using replace_loop_pass_error [OF h(1,2)] by (simp add: replace_braces_def DEPTH_def)
    then show ?thesis by blast
  next
    case (Inr t')
    then obtain v where "replace_match environ m env = Inr v"
      using re_sub_curly_ok [of ?repl t t'] h(3) by blast
    with h(4) show ?thesis by simp
  qed
  have c1: "k < 5 \<and> replace_loop k environ s env = Inr t \<and>
    finditer_curly t = ok @ m # rest \<and>
    (\<forall>m' \<in> set ok. \<exists>v. replace_match environ m' env = Inr v) \<and>
    u = strip (inner_text (m_group m)) \<and>
    getattr env u = None \<and>
    (length (split_char CHR '':'' u) = 1 \<or> 3 < length (split_char CHR '':'' u) \<or>
       hd (split_char CHR '':'' u) \<noteq> ''env'') \<and>
    re_match_config u = None \<and>
    hd (re_split_sep CHR '':'' u) \<noteq> ''posargs'' \<longrightarrow>
      replace_braces environ s env =
        Inl (NotImplementedError (''{'' @ u @ ''} not understood in tox.ini file.''))"
    using first [of k t ok m rest] replace_match_unresolvable [of u m env environ] by blast
  have c2: "k < 5 \<and> replace_loop k environ s env = Inr t \<and>
    finditer_curly t = ok @ m # rest \<and>
    (\<forall>m' \<in> set ok. \<exists>v. replace_match environ m' env = Inr v) \<and>
    replace_match environ m env = Inl e \<longrightarrow>
      replace_braces environ s env = Inl e"
    using first [of k t ok m rest e] by blast
  have c3: "k < 5 \<and> replace_loop k environ s env = Inr t \<and> m \<in> set (finditer_curly t) \<and>
    u = strip (inner_text (m_group m)) \<and>
    getattr env u = None \<and>
    (length (split_char CHR '':'' u) = 1 \<or> 3 < length (split_char CHR '':'' u) \<or>
       hd (split_char CHR '':'' u) \<noteq> ''env'') \<and>
    re_match_config u = None \<and>
    hd (re_split_sep CHR '':'' u) \<noteq> ''posargs'' \<longrightarrow>
      (\<exists>e'. replace_braces environ s env = Inl e')"
    using some [of k t m] replace_match_unresolvable [of u m env environ] by blast
  have c4: "k < 5 \<and> replace_loop k environ s env = Inr t \<and> m \<in> set (finditer_curly t) \<and>
    replace_match environ m env = Inl e \<longrightarrow>
      (\<exists>e'. replace_braces environ s env = Inl e')"
    using some [of k t m e] by blast
  have c5: "replace_braces environ s env = Inl e \<longrightarrow>
      (\<exists>j w. j < 5 \<and> replace_loop j environ s env = Inr w \<and>
         ((\<exists>ok' m' rest'. finditer_curly w = ok' @ m' # rest' \<and>
             (\<forall>m'' \<in> set ok'. \<exists>v. replace_match environ m'' env = Inr v) \<and>
             replace_match environ m' env = Inl e) \<or>
          ((\<forall>m' \<in> set (finditer_curly w). \<exists>v. replace_match environ m' env = Inr v) \<and>
           (\<exists>m' \<in> set (finditer_curly w). replace_match environ m' env = Inr PObj) \<and>
           e = TypeError)))"
  proof
    assume "replace_braces environ s env = Inl e"
    then have "replace_loop 5 environ s env = Inl e"
      by (simp add: replace_braces_def DEPTH_def)
    then obtain j w where j: "j < 5" "replace_loop j environ s env = Inr w"
        "re_sub_curly ?repl w = Inl e"
      using replace_loop_error_pass by blast
    show "\<exists>j w. j < 5 \<and> replace_loop j environ s env = Inr w \<and>
         ((\<exists>ok' m' rest'. finditer_curly w = ok' @ m' # rest' \<and>
             (\<forall>m'' \<in> set ok'. \<exists>v. replace_match environ m'' env = Inr v) \<and>
             replace_match environ m' env = Inl e) \<or>
          ((\<forall>m' \<in> set (finditer_curly w). \<exists>v. replace_match environ m' env = Inr v) \<and>
           (\<exists>m' \<in> set (finditer_curly w). replace_match environ m' env = Inr PObj) \<and>
           e = TypeError))"
      using j(1,2) re_sub_curly_error_cases [OF j(3)] by blast
  qed
  have c6: "replace_braces environ s env = Inr r \<and> k < 5 \<longrightarrow>
      (\<exists>w w'. replace_loop k environ s env = Inr w \<and>
         re_sub_curly ?repl w = Inr w' \<and>
         (\<forall>m' \<in> set (finditer_curly w).
            \<exists>v. replace_match environ m' env = Inr v \<and> v \<noteq> PObj))"
  proof
    assume h: "replace_braces environ s env = Inr r \<and> k < 5"
    then have r: "replace_loop 5 environ s env = Inr r"
      by (simp add: replace_braces_def DEPTH_def)
    obtain w where w: "replace_loop k environ s env = Inr w"
      using replace_loop_prefix [OF r, of k] h by auto
    obtain w' where w': "re_sub_curly ?repl w = Inr w'"
    proof (cases "re_sub_curly ?repl w")
      case (Inl e')
      then have "replace_loop 5 environ s env = Inl e'"
        using replace_loop_pass_error [of k 5, OF _ w] h by blast
      with r show ?thesis by simp
    next
      case (Inr x)
      then show ?thesis using that by blast
    qed
    show "\<exists>w w'. replace_loop k environ s env = Inr w \<and>
         re_sub_curly ?repl w = Inr w' \<and>
         (\<forall>m' \<in> set (finditer_curly w).
            \<exists>v. replace_match environ m' env = Inr v \<and> v \<noteq> PObj)"
      using w w' re_sub_curly_ok [OF w'] by blast
  qed
  show ?thesis
    using c1 c2 c3 c4 c5 c6 by blast
qed

theorem C3_first_failure_witness:
  "(1::nat) < 5 \<and>
   replace_loop 1 Map.empty ''{bogus{name}}'' example_env = Inr ''{boguspy34-foo}'' \<and>
   finditer_curly ''{boguspy34-foo}'' = [] @ Match 0 15 ''{boguspy34-foo}'' # [] \<and>
   strip (inner_text (m_group (Match 0 15 ''{boguspy34-foo}''))) = ''boguspy34-foo'' \<and>
   getattr example_env ''boguspy34-foo'' = None \<and>
   length (split_char CHR '':'' ''boguspy34-foo'') = 1 \<and>
   re_match_config ''boguspy34-foo'' = None \<and>
   hd (re_split_sep CHR '':'' ''boguspy34-foo'') \<noteq> ''posargs'' \<and>
   replace_braces Map.empty ''{bogus{name}}'' example_env =
     Inl (NotImplementedError ''{boguspy34-foo} not understood in tox.ini file.'') \<and>
   (\<exists>j w. j < 5 \<and> replace_loop j Map.empty ''{bogus{name}}'' example_env = Inr w) \<and>
   replace_braces Map.empty ''a {name} b'' example_env = Inr ''a py34-foo b'' \<and>
   (\<exists>w w'. replace_loop 0 Map.empty ''a {name} b'' example_env = Inr w \<and>
      re_sub_curly (\<lambda>m. replace_match Map.empty m example_env) w = Inr w')"
proof -
  have l: "replace_loop 1 Map.empty ''{bogus{name}}'' example_env = Inr ''{boguspy34-foo}''"
    by code_simp
  have f: "finditer_curly ''{boguspy34-foo}'' = [] @ Match 0 15 ''{boguspy34-foo}'' # []"
    by code_simp
  have u: "''boguspy34-foo'' = strip (inner_text (m_group (Match 0 15 ''{boguspy34-foo}'')))"
    by code_simp
  have g: "getattr example_env ''boguspy34-foo'' = None"
    by code_simp
  have c: "length (split_char CHR '':'' ''boguspy34-foo'') = 1"
    by code_simp
  have m: "re_match_config ''boguspy34-foo'' = None"
    by code_simp
  have p: "hd (re_split_sep CHR '':'' ''boguspy34-foo'') \<noteq> ''posargs''"
    by code_simp
  have ok: "\<forall>m' \<in> set []. \<exists>v. replace_match Map.empty m' example_env = Inr v"
    by simp
  have r: "replace_braces Map.empty ''a {name} b'' example_env = Inr ''a py34-foo b''"
    by code_simp
  note one = C3_first_failure [where k = 1 and environ = Map.empty and env = example_env
      and s = "''{bogus{name}}''" and t = "''{boguspy34-foo}''" and ok = "[]"
      and m = "Match 0 15 ''{boguspy34-foo}''" and rest = "[]" and u = "''boguspy34-foo''"
      and e = "NotImplementedError ''{boguspy34-foo} not understood in tox.ini file.''"]
  note two = C3_first_failure [where k = 0 and environ = Map.empty and env = example_env
      and s = "''a {name} b''" and r = "''a py34-foo b''"]
  have lt: "(1::nat) < 5" by simp
  have sh: "length (split_char CHR '':'' ''boguspy34-foo'') = 1 \<or>
      3 < length (split_char CHR '':'' ''boguspy34-foo'') \<or>
      hd (split_char CHR '':'' ''boguspy34-foo'') \<noteq> ''env''"
    using c by (rule disjI1)
  have e1: "replace_braces Map.empty ''{bogus{name}}'' example_env =
     Inl (NotImplementedError (''{'' @ ''boguspy34-foo'' @ ''} not understood in tox.ini file.''))"
    by (rule mp [OF one [THEN conjunct1]]) (intro conjI lt l f ok u g sh m p)
  then have e2: "replace_braces Map.empty ''{bogus{name}}'' example_env =
     Inl (NotImplementedError ''{boguspy34-foo} not understood in tox.ini file.'')"
    by simp
  have "\<exists>j w. j < 5 \<and> replace_loop j Map.empty ''{bogus{name}}'' example_env = Inr w \<and>
         ((\<exists>ok' m' rest'. finditer_curly w = ok' @ m' # rest' \<and>
             (\<forall>m'' \<in> set ok'. \<exists>v. replace_match Map.empty m'' example_env = Inr v) \<and>
             replace_match Map.empty m' example_env =
               Inl (NotImplementedError ''{boguspy34-foo} not understood in tox.ini file.'')) \<or>
          ((\<forall>m' \<in> set (finditer_curly w). \<exists>v. replace_match Map.empty m' example_env = Inr v) \<and>
           (\<exists>m' \<in> set (finditer_curly w). replace_match Map.empty m' example_env = Inr PObj) \<and>
           NotImplementedError ''{boguspy34-foo} not understood in tox.ini file.'' = TypeError))"
    by (rule mp [OF one [THEN conjunct2, THEN conjunct2, THEN conjunct2, THEN conjunct2,
          THEN conjunct1] e2])
  then obtain j w where "j < 5" "replace_loop j Map.empty ''{bogus{name}}'' example_env = Inr w"
    by (elim exE conjE)
  then have e3: "\<exists>j w. j < 5 \<and> replace_loop j Map.empty ''{bogus{name}}'' example_env = Inr w"
    by (intro exI conjI)
  have z: "(0::nat) < 5" by simp
  have "\<exists>w w'. replace_loop 0 Map.empty ''a {name} b'' example_env = Inr w \<and>
         re_sub_curly (\<lambda>m. replace_match Map.empty m example_env) w = Inr w' \<and>
         (\<forall>m' \<in> set (finditer_curly w).
            \<exists>v. replace_match Map.empty m' example_env = Inr v \<and> v \<noteq> PObj)"
    by (rule mp [OF two [THEN conjunct2, THEN conjunct2, THEN conjunct2, THEN conjunct2,
          THEN conjunct2]]) (intro conjI r z)
  then obtain w w' where "replace_loop 0 Map.empty ''a {name} b'' example_env = Inr w"
      "re_sub_curly (\<lambda>m. replace_match Map.empty m example_env) w = Inr w'"
    by (elim exE conjE)
  then have e4: "\<exists>w w'. replace_loop 0 Map.empty ''a {name} b'' example_env = Inr w \<and>
      re_sub_curly (\<lambda>m. replace_match Map.empty m example_env) w = Inr w'"
    by (intro exI conjI)
  show ?thesis
    by (intro conjI lt l f u [symmetric] g c m p e2 e3 e4 r)
qed


text \<open>
  Claim C3 as stated fails: a group that matches no strategy does not make the call raise
  the error that names it when an earlier group fails otherwise; here the missing
  environment variable of the first group is what the caller receives.
\<close>

theorem C3_counterexample:
  "finditer_curly ''{env:NOPE} {bogus}'' = [Match 0 10 ''{env:NOPE}'', Match 11 18 ''{bogus}''] \<and>
   replace_match Map.empty (Match 11 18 ''{bogus}'') example_env =
     Inl (NotImplementedError ''{bogus} not understood in tox.ini file.'') \<and>
   replace_braces Map.empty ''{env:NOPE} {bogus}'' example_env = Inl (KeyError ''NOPE'')"
  by code_simp

section \<open>The five passes\<close>

lemma replace_match_posargs_default:
  assumes "plain w"
    and "join '' '' (positional_args (options env)) = []"
    and "\<forall>u. attrs env (''posargs:'' @ u) = None"
  shows "replace_match environ (Match a b (CHR ''{'' # (''posargs:'' @ w) @ ''}'')) env = Inr (PStr w)"
proof -
  define t where "t = ''posargs:'' @ w"
  have t_ne: "t \<noteq> []" and t_hd: "hd t = CHR ''p''"
    by (simp_all add: t_def)
  have t_last: "last t = (if w = [] then CHR '':'' else last w)"
    by (simp add: t_def)
  have sp: "\<not> isspace (last t)"
    unfolding t_last using plain_facts(4) [OF assms(1)] by (auto simp: isspace_def)
  have hp: "\<not> isspace (hd t)"
    unfolding t_hd by (simp add: isspace_def)
  have it: "inner_text (CHR ''{'' # t @ ''}'') = t"
    by (simp add: inner_text_def butlast_append)
  have st: "strip (inner_text (CHR ''{'' # t @ ''}'')) = t"
    unfolding it using t_ne hp sp by (rule strip_id)
  have g: "getattr env t = None"
    using assms(3) by (simp add: getattr_def t_def)
  have sc: "split_char CHR '':'' t = [''posargs'', w]"
    using plain_facts(1) [OF assms(1)] by (simp add: t_def split_char_no_sep)
  have e: "replace_envvar environ t env = Inl TypeError"
    by (simp add: replace_envvar_def sc)
  have c: "replace_config environ t env = Inl TypeError"
    by (simp add: replace_config_def re_match_config_def t_def)
  have rs: "re_split_sep CHR '':'' t = [''posargs'', w]"
    unfolding t_def using plain_facts(1,3) [OF assms(1)] by (intro re_split_posargs)
  have p: "replace_posargs environ t env = Inr w"
    using assms(2) by (simp add: replace_posargs_def rs)
  have "replace_match environ (Match a b (CHR ''{'' # t @ ''}'')) env = Inr (PStr w)"
    unfolding replace_match_def rmatch.sel st Let_def g
    by (simp add: e c p)
  then show ?thesis by (simp add: t_def)
qed

lemma openers_no_close: "list_all plain qs \<Longrightarrow> CHR ''}'' \<notin> set (openers qs)"
  using plain_facts(6) by (auto simp: openers_def list_all_iff)

lemma nested_snoc:
  "nested (qs @ [p]) d =
     openers qs @ CHR ''{'' # (''posargs:'' @ p @ d) @ CHR ''}'' # replicate (length qs) CHR ''}''"
  by (simp add: nested_def openers_def)

lemma nested_pass:
  assumes "list_all plain qs" "plain p" "plain d"
    and "join '' '' (positional_args (options env)) = []"
    and "\<forall>u. attrs env (''posargs:'' @ u) = None"
  shows "re_sub_curly (\<lambda>m. replace_match environ m env) (nested (qs @ [p]) d) =
         Inr (nested qs (p @ d))"
proof -
  define inner where "inner = ''posargs:'' @ p @ d"
  define post where "post = replicate (length qs) CHR ''}''"
  have 1: "CHR ''}'' \<notin> set (openers qs)"
    using assms(1) by (rule openers_no_close)
  have 2: "list_all nobrace inner"
    using plain_facts(2) [OF assms(2)] plain_facts(2) [OF assms(3)]
    by (simp add: inner_def nobrace_def)
  have 3: "CHR ''{'' \<notin> set post" by (simp add: post_def)
  have pd: "plain (p @ d)" using assms(2,3) by (simp add: plain_append)
  have 4: "replace_match environ
      (Match (length (openers qs)) (length (openers qs) + length inner + 2)
         (CHR ''{'' # inner @ ''}'')) env = Inr (PStr (p @ d))"
    unfolding inner_def by (rule replace_match_posargs_default [OF pd assms(4,5)])
  have "re_sub_curly (\<lambda>m. replace_match environ m env)
      (openers qs @ CHR ''{'' # inner @ CHR ''}'' # post) = Inr (openers qs @ (p @ d) @ post)"
    using re_sub_curly_innermost
      [where repl = "\<lambda>m. replace_match environ m env" and r = "p @ d", OF 1 2 3] 4
    by blast
  moreover have "nested (qs @ [p]) d = openers qs @ CHR ''{'' # inner @ CHR ''}'' # post"
    unfolding inner_def post_def by (rule nested_snoc)
  moreover have "nested qs (p @ d) = openers qs @ (p @ d) @ post"
    by (simp add: nested_def post_def)
  ultimately show ?thesis by simp
qed

lemma nested_loop:
  assumes "join '' '' (positional_args (options env)) = []"
    and "\<forall>u. attrs env (''posargs:'' @ u) = None"
  shows "list_all plain qs \<Longrightarrow> list_all plain rs \<Longrightarrow> plain d \<Longrightarrow>
     replace_loop (length rs) environ (nested (qs @ rs) d) env = Inr (nested qs (concat rs @ d))"
proof (induction rs arbitrary: d rule: rev_induct)
  case Nil
  then show ?case by simp
next
  case (snoc p rs)
  have a: "list_all plain (qs @ rs)" using snoc.prems by simp
  have b: "plain p" using snoc.prems by simp
  have "re_sub_curly (\<lambda>m. replace_match environ m env) (nested ((qs @ rs) @ [p]) d) =
         Inr (nested (qs @ rs) (p @ d))"
    by (rule nested_pass [OF a b snoc.prems(3) assms])
  moreover have "replace_loop (length rs) environ (nested (qs @ rs) (p @ d)) env =
      Inr (nested qs (concat rs @ p @ d))"
    using snoc.IH [of "p @ d"] snoc.prems b by (simp add: plain_append)
  ultimately show ?case by simp
qed

lemma plain_no_groups: "plain w \<Longrightarrow> finditer_curly w = []"
  using plain_facts(5) [of w] by (simp add: finditer_curly_def finditer_curly_from_no_open)



lemma nested_has_group:
  assumes "list_all plain qs" "qs \<noteq> []" "plain d"
  shows "finditer_curly (nested qs d) \<noteq> []"
proof -
  obtain qs' p where q: "qs = qs' @ [p]"
    using assms(2) by (metis rev_exhaust)
  have a: "list_all plain qs'" and b: "plain p" using assms(1) q by simp_all
  have 1: "CHR ''}'' \<notin> set (openers qs')" using a by (rule openers_no_close)
  have 2: "list_all nobrace (''posargs:'' @ p @ d)"
    using plain_facts(2) [OF b] plain_facts(2) [OF assms(3)] by (simp add: nobrace_def)
  have 3: "CHR ''{'' \<notin> set (replicate (length qs') CHR ''}'')" by simp
  show ?thesis
    unfolding q nested_snoc finditer_curly_def
    using finditer_curly_innermost [OF 1 2 3, of 0] by simp
qed

lemma plain_concat: "list_all plain rs \<Longrightarrow> plain d \<Longrightarrow> plain (concat rs @ d)"
  by (induction rs) (simp_all add: plain_append)

lemma requires_levelsI:
  assumes "replace_loop n environ s env = Inr t" "finditer_curly t = []"
    and "\<And>k. k < n \<Longrightarrow> \<exists>w. replace_loop k environ s env = Inr w \<and> finditer_curly w \<noteq> []"
  shows "requires_levels environ s env n"
  using assms by (fastforce simp: requires_levels_def list_all_iff)

lemma requires_levelsD:
  assumes "requires_levels environ s env n"
  shows "\<exists>t. replace_loop n environ s env = Inr t \<and> finditer_curly t = []"
    and "k < n \<Longrightarrow> \<exists>w. replace_loop k environ s env = Inr w \<and> finditer_curly w \<noteq> []"
proof -
  show "\<exists>t. replace_loop n environ s env = Inr t \<and> finditer_curly t = []"
    using assms by (auto simp: requires_levels_def split: sum.splits)
  assume "k < n"
  then have "k \<in> set [0..<n]" by simp
  then have "case replace_loop k environ s env of Inl e \<Rightarrow> False
      | Inr t \<Rightarrow> finditer_curly t \<noteq> []"
    using assms unfolding requires_levels_def list_all_iff by blast
  then show "\<exists>w. replace_loop k environ s env = Inr w \<and> finditer_curly w \<noteq> []"
    by (auto split: sum.splits)
qed

lemma nested_requires:
  assumes "join '' '' (positional_args (options env)) = []"
    and "\<forall>u. attrs env (''posargs:'' @ u) = None"
    and "list_all plain ps" "plain d"
  shows "requires_levels environ (nested ps d) env (length ps)"
proof (rule requires_levelsI)
  show "replace_loop (length ps) environ (nested ps d) env = Inr (concat ps @ d)"
    using nested_loop [OF assms(1,2), of "[]" ps d] assms(3,4)
    by (simp add: nested_def openers_def)
  show "finditer_curly (concat ps @ d) = []"
    using plain_concat [OF assms(3,4)] by (rule plain_no_groups)
next
  fix k assume k: "k < length ps"
  define qs where "qs = take (length ps - k) ps"
  define rs where "rs = drop (length ps - k) ps"
  have ps: "ps = qs @ rs" by (simp add: qs_def rs_def)
  have len: "length rs = k" using k by (simp add: rs_def)
  have ne: "qs \<noteq> []" using k by (auto simp: qs_def)
  have pq: "list_all plain qs" and pr: "list_all plain rs"
    using assms(3) unfolding ps by simp_all
  have "replace_loop (length rs) environ (nested (qs @ rs) d) env =
      Inr (nested qs (concat rs @ d))"
    by (rule nested_loop [OF assms(1,2) pq pr assms(4)])
  moreover have "finditer_curly (nested qs (concat rs @ d)) \<noteq> []"
    by (rule nested_has_group [OF pq ne plain_concat [OF pr assms(4)]])
  ultimately show "\<exists>w. replace_loop k environ (nested ps d) env = Inr w \<and> finditer_curly w \<noteq> []"
    unfolding ps len by blast
qed

lemma env_ref_match:
  assumes "plain k" "\<forall>u. attrs env (''env:'' @ u) = None" "environ k = Some v"
  shows "replace_match environ (Match a b (CHR ''{'' # (''env:'' @ k) @ ''}'')) env = Inr (PStr v)"
proof -
  define t where "t = ''env:'' @ k"
  have t_ne: "t \<noteq> []" and t_hd: "hd t = CHR ''e''"
    by (simp_all add: t_def)
  have t_last: "last t = (if k = [] then CHR '':'' else last k)"
    by (simp add: t_def)
  have sp: "\<not> isspace (last t)"
    unfolding t_last using plain_facts(4) [OF assms(1)] by (auto simp: isspace_def)
  have hp: "\<not> isspace (hd t)"
    unfolding t_hd by (simp add: isspace_def)
  have it: "inner_text (CHR ''{'' # t @ ''}'') = t"
    by (simp add: inner_text_def butlast_append)
  have st: "t = strip (inner_text (m_group (Match a b (CHR ''{'' # t @ ''}''))))"
    using strip_id [OF t_ne hp sp] by (simp add: it)
  have g: "getattr env t = None"
    using assms(2) by (simp add: getattr_def t_def)
  have sc: "split_char CHR '':'' t = [''env'', k]"
    unfolding t_def using plain_facts(1) [OF assms(1)] by (rule split_colon_env2)
  have e: "replace_envvar environ t env = Inr v"
    using assms(3) by (simp add: replace_envvar_def sc)
  then have ne: "replace_envvar environ t env \<noteq> Inl TypeError" by simp
  have "replace_match environ (Match a b (CHR ''{'' # t @ ''}'')) env =
      map_sum id PStr (replace_envvar environ t env)"
    by (rule replace_match_envvar_result [OF st g ne])
  then show ?thesis
    unfolding e by (simp add: t_def)
qed

lemma env_ref_shape:
  "env_ref k = [] @ CHR ''{'' # (''env:'' @ k) @ CHR ''}'' # []"
  by (simp add: env_ref_def)

lemma env_ref_pass:
  assumes "plain k" "\<forall>u. attrs env (''env:'' @ u) = None" "environ k = Some v"
  shows "re_sub_curly (\<lambda>m. replace_match environ m env) (env_ref k) = Inr v"
proof -
  have 1: "CHR ''}'' \<notin> set []" and 3: "CHR ''{'' \<notin> set []" by simp_all
  have 2: "list_all nobrace (''env:'' @ k)"
    using plain_facts(2) [OF assms(1)] by (simp add: nobrace_def)
  have 4: "replace_match environ
      (Match (length ([] :: string)) (length ([] :: string) + length (''env:'' @ k) + 2)
         (CHR ''{'' # (''env:'' @ k) @ ''}'')) env = Inr (PStr v)"
    by (rule env_ref_match [where environ = environ and k = k, OF assms])
  have "re_sub_curly (\<lambda>m. replace_match environ m env)
      ([] @ CHR ''{'' # (''env:'' @ k) @ CHR ''}'' # []) = Inr ([] @ v @ [])"
    using re_sub_curly_innermost
      [where repl = "\<lambda>m. replace_match environ m env" and r = v, OF 1 2 3] 4
    by blast
  then show ?thesis
    unfolding env_ref_shape by simp
qed

lemma env_ref_has_group: "plain k \<Longrightarrow> finditer_curly (env_ref k) \<noteq> []"
proof -
  assume p: "plain k"
  have 1: "CHR ''}'' \<notin> set []" and 3: "CHR ''{'' \<notin> set []" by simp_all
  have 2: "list_all nobrace (''env:'' @ k)"
    using plain_facts(2) [OF p] by (simp add: nobrace_def)
  show ?thesis
    unfolding env_ref_shape finditer_curly_def
    using finditer_curly_innermost [OF 1 2 3, of 0] by simp
qed

lemma chain_loop_nth:
  assumes "\<forall>u. attrs env (''env:'' @ u) = None"
  shows "chained environ ks \<Longrightarrow> list_all plain ks \<Longrightarrow> j < length ks \<Longrightarrow>
     replace_loop j environ (env_ref (hd ks)) env = Inr (env_ref (ks ! j))"
proof (induction ks arbitrary: j)
  case Nil
  then show ?case by simp
next
  case (Cons k ks)
  show ?case
  proof (cases j)
    case 0
    then show ?thesis by simp
  next
    case (Suc j')
    with Cons.prems(3) have j': "j' < length ks" by simp
    then obtain k' ks' where ks: "ks = k' # ks'" by (cases ks) auto
    have v: "environ k = Some (env_ref k')" and ch: "chained environ ks"
      using Cons.prems(1) ks by simp_all
    have pk: "plain k" and pks: "list_all plain ks" using Cons.prems(2) by simp_all
    have "re_sub_curly (\<lambda>m. replace_match environ m env) (env_ref k) = Inr (env_ref k')"
      by (rule env_ref_pass [where environ = environ and k = k, OF pk assms v])
    moreover have "replace_loop j' environ (env_ref (hd ks)) env = Inr (env_ref (ks ! j'))"
      by (rule Cons.IH [OF ch pks j'])
    ultimately show ?thesis
      using Suc ks by simp
  qed
qed

lemma chain_requires:
  assumes "\<forall>u. attrs env (''env:'' @ u) = None"
    and "chained environ ks" "ks \<noteq> []" "list_all plain ks"
    and "environ (last ks) = Some v" "finditer_curly v = []"
  shows "requires_levels environ (env_ref (hd ks)) env (length ks)"
proof (rule requires_levelsI)
  define n where "n = length ks - 1"
  have len: "length ks = n + 1" using assms(3) by (cases ks) (simp_all add: n_def)
  have la: "ks ! n = last ks" using assms(3) by (simp add: n_def last_conv_nth)
  have pl: "plain (last ks)" using assms(3,4) by (simp add: list_all_iff)
  have "replace_loop n environ (env_ref (hd ks)) env = Inr (env_ref (last ks))"
    using chain_loop_nth [OF assms(1,2,4), of n] len la by simp
  then have "replace_loop (n + 1) environ (env_ref (hd ks)) env =
      replace_loop 1 environ (env_ref (last ks)) env"
    by (rule replace_loop_add)
  moreover have "re_sub_curly (\<lambda>m. replace_match environ m env) (env_ref (last ks)) = Inr v"
    by (rule env_ref_pass [where environ = environ and k = "last ks", OF pl assms(1,5)])
  ultimately show "replace_loop (length ks) environ (env_ref (hd ks)) env = Inr v"
    unfolding len by simp
  show "finditer_curly v = []" by (rule assms(6))
next
  fix k assume k: "k < length ks"
  have "replace_loop k environ (env_ref (hd ks)) env = Inr (env_ref (ks ! k))"
    by (rule chain_loop_nth [OF assms(1,2,4) k])
  moreover have "plain (ks ! k)" using assms(4) k by (simp add: list_all_length)
  ultimately show "\<exists>w. replace_loop k environ (env_ref (hd ks)) env = Inr w \<and>
      finditer_curly w \<noteq> []"
    using env_ref_has_group by blast
qed

lemma levels_within_cap:
  assumes "requires_levels environ s env n" "n \<le> 5"
  shows "\<exists>t. replace_braces environ s env = Inr t \<and> finditer_curly t = []"
proof -
  obtain t where t: "replace_loop n environ s env = Inr t" "finditer_curly t = []"
    using requires_levelsD(1) [OF assms(1)] by blast
  obtain j where j: "5 = n + j" using assms(2) le_Suc_ex by blast
  have "replace_loop (n + j) environ s env = replace_loop j environ t env"
    using t(1) by (rule replace_loop_add)
  then have "replace_braces environ s env = Inr t"
    using j t(2) by (simp add: replace_braces_def DEPTH_def replace_loop_no_groups)
  then show ?thesis using t(2) by blast
qed

lemma levels_beyond_cap:
  assumes "requires_levels environ s env n" "5 < n"
  shows "\<exists>t. replace_braces environ s env = Inr t \<and> finditer_curly t \<noteq> []"
  using requires_levelsD(2) [OF assms(1), of 5] assms(2)
  by (simp add: replace_braces_def DEPTH_def)

lemma levels_six:
  assumes "requires_levels environ s env 6"
  shows "\<exists>t t'. replace_braces environ s env = Inr t \<and> finditer_curly t \<noteq> [] \<and>
     re_sub_curly (\<lambda>m. replace_match environ m env) t = Inr t' \<and> finditer_curly t' = []"
proof -
  obtain t where t: "replace_loop 5 environ s env = Inr t" "finditer_curly t \<noteq> []"
    using requires_levelsD(2) [OF assms, of 5] by auto
  obtain t' where t': "replace_loop 6 environ s env = Inr t'" "finditer_curly t' = []"
    using requires_levelsD(1) [OF assms] by blast
  have "replace_loop (5 + 1) environ s env = replace_loop 1 environ t env"
    using t(1) by (rule replace_loop_add)
  then have "re_sub_curly (\<lambda>m. replace_match environ m env) t = Inr t'"
    using t'(1) by (simp split: sum.splits)
  then show ?thesis
    using t t'(2) by (auto simp: replace_braces_def DEPTH_def)
qed

lemma groups_innermost:
  "m \<in> set (finditer_curly_from pos s) \<Longrightarrow>
   \<exists>inner. m_group m = CHR ''{'' # inner @ ''}'' \<and> list_all nobrace inner"
proof (induction pos s rule: finditer_curly_from.induct)
  case (1 pos)
  then show ?case by simp
next
  case (2 pos c cs)
  show ?case
  proof (cases "match_curly (c # cs)")
    case None
    then show ?thesis using "2.IH"(1) "2.prems" by simp
  next
    case (Some a)
    obtain g rest where a: "a = (g, rest)" by (cases a)
    from "2.prems" Some a have "m = Match pos (pos + length g) g \<or>
        m \<in> set (finditer_curly_from (pos + length g) rest)"
      by simp
    then show ?thesis
    proof
      assume m: "m = Match pos (pos + length g) g"
      have "g = CHR ''{'' # takeWhile nobrace cs @ ''}''"
        using Some a by (auto simp: match_curly_def split: list.splits if_splits)
      moreover have "list_all nobrace (takeWhile nobrace cs)"
        by (auto simp: list_all_iff dest: set_takeWhileD)
      ultimately show ?thesis using m by auto
    next
      assume "m \<in> set (finditer_curly_from (pos + length g) rest)"
      then show ?thesis using "2.IH"(2) [OF Some a [symmetric]] by blast
    qed
  qed
qed

text \<open>
  Claim C2, amended. \<open>replace_braces\<close> is exactly five passes of match and replace, each
  on the result of the one before, whether or not an earlier pass left no group; being a
  recursion on the pass counter over scans that terminate, it always returns. A string
  that requires at most five levels is fully resolved. A string that requires six levels,
  or more, is returned without error as the text of the fifth pass, in which the groups
  that a sixth pass would expand are left. A pass only matches groups that hold no brace,
  so a group around another one waits for a later pass. When the nesting comes from
  substituted values (a chain of \<^verbatim>\<open>{env:KEY}\<close> whose values are the next placeholder)
  the group left is the deepest placeholder of the chain; when the placeholders are nested
  in the string itself (\<^verbatim>\<open>{posargs:DEFAULT}\<close> within the default of another, without
  positional arguments) the innermost groups are expanded first, and the group left is the
  outermost one.
\<close>

theorem C2_depth_cap:
  "replace_braces environ s env = replace_loop 5 environ s env \<and>
   (k \<le> 5 \<and> replace_loop k environ s env = Inr t \<and> finditer_curly t = [] \<longrightarrow>
      replace_braces environ s env = Inr t) \<and>
   (n \<le> 5 \<and> requires_levels environ s env n \<longrightarrow>
      (\<exists>w. replace_braces environ s env = Inr w \<and> finditer_curly w = [])) \<and>
   (requires_levels environ s env 6 \<longrightarrow>
      (\<exists>w w'. replace_braces environ s env = Inr w \<and> finditer_curly w \<noteq> [] \<and>
         re_sub_curly (\<lambda>m. replace_match environ m env) w = Inr w' \<and>
         finditer_curly w' = [])) \<and>
   (5 < n \<and> requires_levels environ s env n \<longrightarrow>
      (\<exists>w. replace_braces environ s env = Inr w \<and> finditer_curly w \<noteq> [])) \<and>
   (chained environ ks \<and> length ks = 6 \<and> list_all plain ks \<and>
    environ (last ks) = Some v \<and> finditer_curly v = [] \<and>
    (\<forall>u. attrs env (''env:'' @ u) = None) \<longrightarrow>
      requires_levels environ (env_ref (hd ks)) env 6 \<and>
      replace_braces environ (env_ref (hd ks)) env = Inr (env_ref (last ks))) \<and>
   (list_all plain (d # q # rs) \<and> length rs = 5 \<and>
    join '' '' (positional_args (options env)) = [] \<and>
    (\<forall>u. attrs env (''posargs:'' @ u) = None) \<longrightarrow>
      requires_levels environ (nested rs d) env 5 \<and>
      replace_braces environ (nested rs d) env = Inr (concat rs @ d) \<and>
      finditer_curly (concat rs @ d) = [] \<and>
      requires_levels environ (nested (q # rs) d) env 6 \<and>
      replace_braces environ (nested (q # rs) d) env =
        Inr (''{posargs:'' @ q @ concat rs @ d @ ''}'')) \<and>
   (m \<in> set (finditer_curly s) \<longrightarrow>
      (\<exists>inner. m_group m = CHR ''{'' # inner @ ''}'' \<and> list_all nobrace inner))"
proof -
  have c1: "replace_braces environ s env = replace_loop 5 environ s env"
    by (simp add: replace_braces_def DEPTH_def)
  have c2: "replace_braces environ s env = Inr t"
    if h: "k \<le> 5 \<and> replace_loop k environ s env = Inr t \<and> finditer_curly t = []"
  proof -
    obtain j where j: "5 = k + j" using h le_Suc_ex by blast
    have "replace_loop (k + j) environ s env = replace_loop j environ t env"
      using h by (intro replace_loop_add) simp
    then show ?thesis
      using h j by (simp add: replace_braces_def DEPTH_def replace_loop_no_groups)
  qed
  have c3: "\<exists>w. replace_braces environ s env = Inr w \<and> finditer_curly w = []"
    if "n \<le> 5 \<and> requires_levels environ s env n"
    using that levels_within_cap by blast
  have c4: "\<exists>w w'. replace_braces environ s env = Inr w \<and> finditer_curly w \<noteq> [] \<and>
         re_sub_curly (\<lambda>m. replace_match environ m env) w = Inr w' \<and>
         finditer_curly w' = []"
    if "requires_levels environ s env 6"
    using that by (rule levels_six)
  have c5: "\<exists>w. replace_braces environ s env = Inr w \<and> finditer_curly w \<noteq> []"
    if "5 < n \<and> requires_levels environ s env n"
    using that levels_beyond_cap by blast
  have c6: "requires_levels environ (env_ref (hd ks)) env 6 \<and>
      replace_braces environ (env_ref (hd ks)) env = Inr (env_ref (last ks))"
    if h: "chained environ ks \<and> length ks = 6 \<and> list_all plain ks \<and>
      environ (last ks) = Some v \<and> finditer_curly v = [] \<and>
      (\<forall>u. attrs env (''env:'' @ u) = None)"
  proof
    have ch: "chained environ ks" and len: "length ks = 6" and pl: "list_all plain ks"
      and la: "environ (last ks) = Some v" and nv: "finditer_curly v = []"
      and at: "\<forall>u. attrs env (''env:'' @ u) = None"
      using h by simp_all
    have ne: "ks \<noteq> []" using len by auto
    show "requires_levels environ (env_ref (hd ks)) env 6"
      using chain_requires [OF at ch ne pl la nv] len by simp
    have "replace_loop 5 environ (env_ref (hd ks)) env = Inr (env_ref (ks ! 5))"
      using chain_loop_nth [OF at ch pl, of 5] len by simp
    moreover have "ks ! 5 = last ks"
      using ne len by (simp add: last_conv_nth)
    ultimately show "replace_braces environ (env_ref (hd ks)) env = Inr (env_ref (last ks))"
      by (simp add: replace_braces_def DEPTH_def)
  qed
  have c7: "requires_levels environ (nested rs d) env 5 \<and>
      replace_braces environ (nested rs d) env = Inr (concat rs @ d) \<and>
      finditer_curly (concat rs @ d) = [] \<and>
      requires_levels environ (nested (q # rs) d) env 6 \<and>
      replace_braces environ (nested (q # rs) d) env =
        Inr (''{posargs:'' @ q @ concat rs @ d @ ''}'')"
    if h: "list_all plain (d # q # rs) \<and> length rs = 5 \<and>
      join '' '' (positional_args (options env)) = [] \<and>
      (\<forall>u. attrs env (''posargs:'' @ u) = None)"
  proof (intro conjI)
    have e: "join '' '' (positional_args (options env)) = []"
      and a: "\<forall>u. attrs env (''posargs:'' @ u) = None"
      and pd: "plain d" and pq: "plain q" and prs: "list_all plain rs" and len: "length rs = 5"
      using h by simp_all
    have pqrs: "list_all plain (q # rs)" using pq prs by simp
    show "requires_levels environ (nested rs d) env 5"
      using nested_requires [OF e a prs pd] len by simp
    have "replace_loop (length rs) environ (nested ([] @ rs) d) env =
        Inr (nested [] (concat rs @ d))"
      using nested_loop [OF e a, of "[]" rs d] prs pd by simp
    then show "replace_braces environ (nested rs d) env = Inr (concat rs @ d)"
      by (simp add: replace_braces_def DEPTH_def len nested_def openers_def)
    show "finditer_curly (concat rs @ d) = []"
      using plain_concat [OF prs pd] by (rule plain_no_groups)
    show "requires_levels environ (nested (q # rs) d) env 6"
      using nested_requires [OF e a pqrs pd] len by simp
    have "replace_loop (length rs) environ (nested ([q] @ rs) d) env =
        Inr (nested [q] (concat rs @ d))"
      using nested_loop [OF e a, of "[q]" rs d] prs pd pq by simp
    then show "replace_braces environ (nested (q # rs) d) env =
        Inr (''{posargs:'' @ q @ concat rs @ d @ ''}'')"
      by (simp add: replace_braces_def DEPTH_def len nested_def openers_def)
  qed
  have c8: "\<exists>inner. m_group m = CHR ''{'' # inner @ ''}'' \<and> list_all nobrace inner"
    if "m \<in> set (finditer_curly s)"
    using that groups_innermost [of m 0 s] by (simp add: finditer_curly_def)
  show ?thesis
    using c1 c2 c3 c4 c5 c6 c7 c8 by blast
qed

theorem C2_depth_cap_witness:
  "list_all plain [''g'', ''a'', ''b'', ''c'', ''d'', ''e'', ''f''] \<and>
   join '' '' (positional_args (options example_env)) = [] \<and>
   (\<forall>u. attrs example_env (''posargs:'' @ u) = None) \<and>
   nested [''b'', ''c'', ''d'', ''e'', ''f''] ''g'' =
     ''{posargs:b{posargs:c{posargs:d{posargs:e{posargs:fg}}}}}'' \<and>
   requires_levels Map.empty ''{posargs:b{posargs:c{posargs:d{posargs:e{posargs:fg}}}}}''
     example_env 5 \<and>
   replace_braces Map.empty ''{posargs:b{posargs:c{posargs:d{posargs:e{posargs:fg}}}}}'' example_env =
     Inr ''bcdefg'' \<and>
   nested [''a'', ''b'', ''c'', ''d'', ''e'', ''f''] ''g'' =
     ''{posargs:a{posargs:b{posargs:c{posargs:d{posargs:e{posargs:fg}}}}}}'' \<and>
   requires_levels Map.empty ''{posargs:a{posargs:b{posargs:c{posargs:d{posargs:e{posargs:fg}}}}}}''
     example_env 6 \<and>
   replace_braces Map.empty ''{posargs:a{posargs:b{posargs:c{posargs:d{posargs:e{posargs:fg}}}}}}''
     example_env = Inr ''{posargs:abcdefg}'' \<and>
   chained example_environ [''K1'', ''K2'', ''K3'', ''K4'', ''K5'', ''K6''] \<and>
   list_all plain [''K1'', ''K2'', ''K3'', ''K4'', ''K5'', ''K6''] \<and>
   example_environ ''K6'' = Some ''done'' \<and>
   (\<forall>u. attrs example_env (''env:'' @ u) = None) \<and>
   requires_levels example_environ ''{env:K1}'' example_env 6 \<and>
   replace_braces example_environ ''{env:K1}'' example_env = Inr ''{env:K6}'' \<and>
   (\<exists>w'. re_sub_curly (\<lambda>m. replace_match example_environ m example_env) ''{env:K6}'' = Inr w' \<and>
      finditer_curly w' = []) \<and>
   replace_loop 1 Map.empty ''{posargs:x}'' example_env = Inr ''x'' \<and>
   finditer_curly ''x'' = [] \<and>
   replace_braces Map.empty ''{posargs:x}'' example_env = Inr ''x''"
proof -
  have p: "list_all plain [''g'', ''a'', ''b'', ''c'', ''d'', ''e'', ''f'']"
    by code_simp
  have j: "join '' '' (positional_args (options example_env)) = []"
    by code_simp
  have a: "\<forall>u. attrs example_env (''posargs:'' @ u) = None"
    by (simp add: example_env_def)
  have a': "\<forall>u. attrs example_env (''env:'' @ u) = None"
    by (simp add: example_env_def)
  have n5: "nested [''b'', ''c'', ''d'', ''e'', ''f''] ''g'' =
     ''{posargs:b{posargs:c{posargs:d{posargs:e{posargs:fg}}}}}''"
    by code_simp
  have n6: "nested [''a'', ''b'', ''c'', ''d'', ''e'', ''f''] ''g'' =
     ''{posargs:a{posargs:b{posargs:c{posargs:d{posargs:e{posargs:fg}}}}}}''"
    by code_simp
  have l: "replace_loop 1 Map.empty ''{posargs:x}'' example_env = Inr ''x''"
    by code_simp
  have f: "finditer_curly ''x'' = []"
    by code_simp
  have c: "concat [''b'', ''c'', ''d'', ''e'', ''f''] @ ''g'' = ''bcdefg''"
    "''{posargs:'' @ ''a'' @ concat [''b'', ''c'', ''d'', ''e'', ''f''] @ ''g'' @ ''}'' =
       ''{posargs:abcdefg}''"
    by simp_all
  have ch: "chained example_environ [''K1'', ''K2'', ''K3'', ''K4'', ''K5'', ''K6'']"
    by code_simp
  have kp: "list_all plain [''K1'', ''K2'', ''K3'', ''K4'', ''K5'', ''K6'']"
    by code_simp
  have kl: "length [''K1'', ''K2'', ''K3'', ''K4'', ''K5'', ''K6''] = 6"
    by simp
  have k6: "example_environ (last [''K1'', ''K2'', ''K3'', ''K4'', ''K5'', ''K6'']) = Some ''done''"
    by code_simp
  have k6': "example_environ ''K6'' = Some ''done''"
    by code_simp
  have fd: "finditer_curly ''done'' = []"
    by code_simp
  have er: "env_ref (hd [''K1'', ''K2'', ''K3'', ''K4'', ''K5'', ''K6'']) = ''{env:K1}''"
    "env_ref (last [''K1'', ''K2'', ''K3'', ''K4'', ''K5'', ''K6'']) = ''{env:K6}''"
    by (simp_all add: env_ref_def)
  have one: "(1::nat) \<le> 5" by simp
  have len: "length [''b'', ''c'', ''d'', ''e'', ''f''] = 5" by simp
  note nest = C2_depth_cap [where environ = Map.empty and env = example_env and k = 1
      and s = "''{posargs:x}''" and t = "''x''" and d = "''g''" and q = "''a''"
      and rs = "[''b'', ''c'', ''d'', ''e'', ''f'']"]
  note chain = C2_depth_cap [where environ = example_environ and env = example_env
      and s = "''{env:K1}''" and ks = "[''K1'', ''K2'', ''K3'', ''K4'', ''K5'', ''K6'']"
      and v = "''done''"]
  have r1: "replace_braces Map.empty ''{posargs:x}'' example_env = Inr ''x''"
    by (rule mp [OF nest [THEN conjunct2, THEN conjunct1]]) (intro conjI one l f)
  have fam: "requires_levels Map.empty (nested [''b'', ''c'', ''d'', ''e'', ''f''] ''g'') example_env 5 \<and>
      replace_braces Map.empty (nested [''b'', ''c'', ''d'', ''e'', ''f''] ''g'') example_env =
        Inr (concat [''b'', ''c'', ''d'', ''e'', ''f''] @ ''g'') \<and>
      finditer_curly (concat [''b'', ''c'', ''d'', ''e'', ''f''] @ ''g'') = [] \<and>
      requires_levels Map.empty (nested (''a'' # [''b'', ''c'', ''d'', ''e'', ''f'']) ''g'')
        example_env 6 \<and>
      replace_braces Map.empty (nested (''a'' # [''b'', ''c'', ''d'', ''e'', ''f'']) ''g'')
        example_env =
        Inr (''{posargs:'' @ ''a'' @ concat [''b'', ''c'', ''d'', ''e'', ''f''] @ ''g'' @ ''}'')"
    by (rule mp [OF nest [THEN conjunct2, THEN conjunct2, THEN conjunct2, THEN conjunct2,
          THEN conjunct2, THEN conjunct2, THEN conjunct1]]) (intro conjI p len j a)
  have q5: "requires_levels Map.empty ''{posargs:b{posargs:c{posargs:d{posargs:e{posargs:fg}}}}}''
      example_env 5"
    using fam [THEN conjunct1] unfolding n5 .
  have r5: "replace_braces Map.empty ''{posargs:b{posargs:c{posargs:d{posargs:e{posargs:fg}}}}}''
      example_env = Inr ''bcdefg''"
    using fam [THEN conjunct2, THEN conjunct1] unfolding n5 c .
  have q6: "requires_levels Map.empty
      ''{posargs:a{posargs:b{posargs:c{posargs:d{posargs:e{posargs:fg}}}}}}'' example_env 6"
    using fam [THEN conjunct2, THEN conjunct2, THEN conjunct2, THEN conjunct1] unfolding n6 .
  have r6: "replace_braces Map.empty
      ''{posargs:a{posargs:b{posargs:c{posargs:d{posargs:e{posargs:fg}}}}}}'' example_env =
      Inr ''{posargs:abcdefg}''"
    using fam [THEN conjunct2, THEN conjunct2, THEN conjunct2, THEN conjunct2] unfolding n6 c .
  have cf: "requires_levels example_environ
        (env_ref (hd [''K1'', ''K2'', ''K3'', ''K4'', ''K5'', ''K6''])) example_env 6 \<and>
      replace_braces example_environ
        (env_ref (hd [''K1'', ''K2'', ''K3'', ''K4'', ''K5'', ''K6''])) example_env =
        Inr (env_ref (last [''K1'', ''K2'', ''K3'', ''K4'', ''K5'', ''K6'']))"
    by (rule mp [OF chain [THEN conjunct2, THEN conjunct2, THEN conjunct2, THEN conjunct2,
          THEN conjunct2, THEN conjunct1]]) (intro conjI ch kl kp k6 fd a')
  have qc: "requires_levels example_environ ''{env:K1}'' example_env 6"
    using cf [THEN conjunct1] unfolding er .
  have rc: "replace_braces example_environ ''{env:K1}'' example_env = Inr ''{env:K6}''"
    using cf [THEN conjunct2] unfolding er .
  have "\<exists>w w'. replace_braces example_environ ''{env:K1}'' example_env = Inr w \<and>
      finditer_curly w \<noteq> [] \<and>
      re_sub_curly (\<lambda>m. replace_match example_environ m example_env) w = Inr w' \<and>
      finditer_curly w' = []"
    by (rule mp [OF chain [THEN conjunct2, THEN conjunct2, THEN conjunct2, THEN conjunct1] qc])
  then obtain w w' where w: "replace_braces example_environ ''{env:K1}'' example_env = Inr w"
      "re_sub_curly (\<lambda>m. replace_match example_environ m example_env) w = Inr w'"
      "finditer_curly w' = []"
    by (elim exE conjE)
  have "w = ''{env:K6}''" using w(1) rc by simp
  then have six: "\<exists>w'. re_sub_curly (\<lambda>m. replace_match example_environ m example_env)
      ''{env:K6}'' = Inr w' \<and> finditer_curly w' = []"
    using w(2,3) by (intro exI [of _ w']) simp
  show ?thesis
    by (intro conjI p j a n5 q5 r5 n6 q6 r6 ch kp k6' a' qc rc six l f r1)
qed

text \<open>
  Claim C2 as stated fails on the group that stays: for six placeholders nested in the
  string the first pass expands the innermost group, and what the call returns is the
  outermost group, the one that a sixth pass would have resolved.
\<close>

theorem C2_counterexample:
  "requires_levels Map.empty
       ''{posargs:a{posargs:b{posargs:c{posargs:d{posargs:e{posargs:f}}}}}}'' example_env 6 \<and>
   finditer_curly ''{posargs:a{posargs:b{posargs:c{posargs:d{posargs:e{posargs:f}}}}}}'' =
     [Match 50 61 ''{posargs:f}''] \<and>
   re_sub_curly (\<lambda>m. replace_match Map.empty m example_env)
       ''{posargs:a{posargs:b{posargs:c{posargs:d{posargs:e{posargs:f}}}}}}'' =
     Inr ''{posargs:a{posargs:b{posargs:c{posargs:d{posargs:ef}}}}}'' \<and>
   replace_braces Map.empty ''{posargs:a{posargs:b{posargs:c{posargs:d{posargs:e{posargs:f}}}}}}''
       example_env = Inr ''{posargs:abcdef}'' \<and>
   replace_loop 6 Map.empty ''{posargs:a{posargs:b{posargs:c{posargs:d{posargs:e{posargs:f}}}}}}''
       example_env = Inr ''abcdef''"
  by code_simp

end
